theory Spec2Isabelle
  imports Complex_Main "HOL-Library.Word"
begin

section \<open>Data model\<close>

text \<open>
  The monitor is one C file. Its counters are \<open>unsigned long long\<close>, modelled as 64-bit
  words: \<open>+\<close> and \<open>-\<close> wrap around as in C. Its \<open>int\<close> flags are modelled as \<open>int\<close>
  (only the values 0 and 1 occur), its \<open>int\<close> counters as 32-bit words read with
  \<open>sint\<close>. A \<open>double\<close> is modelled by the real number it denotes, and every conversion
  to \<open>double\<close> and every arithmetic operation on doubles rounds its exact result to the
  nearest binary64 number.
\<close>

type_synonym u64 = "64 word"
type_synonym double = real

section \<open>Double arithmetic\<close>

text \<open>
  A positive real is scaled by powers of two until it lies in \<open>[2^52, 2^53)\<close>; the
  scaled value is rounded to the nearest integer, a tie going to the even one, and
  scaled back. This is rounding to nearest with a significand of 53 bits, the default
  rounding of IEEE-754 binary64. The exponent is not bounded in the model: overflow
  and subnormal numbers are not represented. The program keeps away from both: its
  doubles are 0 or have a magnitude between \<open>2^-70\<close> and \<open>2^72\<close>.
\<close>

function normalise :: "real \<Rightarrow> int \<Rightarrow> real \<times> int" where
  "normalise m e =
     (if m \<le> 0 then (m, e)
      else if 2 ^ 53 \<le> m then normalise (m / 2) (e + 1)
      else if m < 2 ^ 52 then normalise (2 * m) (e - 1)
      else (m, e))"
  by pat_completeness auto
termination
proof (relation "measure (\<lambda>(m, e). nat \<bar>\<lfloor>log 2 m\<rfloor> - 52\<bar>)")
  show "wf (measure (\<lambda>(m, e). nat \<bar>\<lfloor>log 2 m\<rfloor> - 52\<bar>))" by simp
next
  fix m :: real and e :: int
  assume "\<not> m \<le> 0" "2 ^ 53 \<le> m"
  then have pos: "0 < m" by simp
  have "log 2 ((2::real) ^ 53) = real 53" by (rule log_pow_cancel) simp_all
  moreover have "log 2 (2 ^ 53) \<le> log 2 m"
    using \<open>2 ^ 53 \<le> m\<close> pos by (subst log_le_cancel_iff) auto
  ultimately have "53 \<le> log 2 m" by (simp del: log_pow_cancel)
  then have big: "53 \<le> \<lfloor>log 2 m\<rfloor>" by (simp add: le_floor_iff)
  have "log 2 (m / 2) = log 2 m - 1" using pos by (simp add: log_divide)
  then have "\<lfloor>log 2 (m / 2)\<rfloor> = \<lfloor>log 2 m\<rfloor> - 1" by simp
  then show "((m / 2, e + 1), (m, e)) \<in> measure (\<lambda>(m, e). nat \<bar>\<lfloor>log 2 m\<rfloor> - 52\<bar>)"
    using big by simp
next
  fix m :: real and e :: int
  assume "\<not> m \<le> 0" "\<not> 2 ^ 53 \<le> m" "m < 2 ^ 52"
  then have pos: "0 < m" by simp
  have "log 2 ((2::real) ^ 52) = real 52" by (rule log_pow_cancel) simp_all
  moreover have "log 2 m < log 2 (2 ^ 52)"
    using \<open>m < 2 ^ 52\<close> pos by (subst log_less_cancel_iff) auto
  ultimately have "log 2 m < 52" by (simp del: log_pow_cancel)
  then have small: "\<lfloor>log 2 m\<rfloor> < 52" by (simp add: floor_less_iff)
  have "log 2 (2 * m) = log 2 m + 1" using pos by (simp add: log_mult)
  then have "\<lfloor>log 2 (2 * m)\<rfloor> = \<lfloor>log 2 m\<rfloor> + 1" by simp
  then show "((2 * m, e - 1), (m, e)) \<in> measure (\<lambda>(m, e). nat \<bar>\<lfloor>log 2 m\<rfloor> - 52\<bar>)"
    using small by simp
qed

declare normalise.simps [simp del]

definition round_even :: "real \<Rightarrow> int" where
  "round_even x =
     (let f = \<lfloor>x\<rfloor>; r = x - of_int f
      in if r < 1 / 2 then f
         else if 1 / 2 < r then f + 1
         else if even f then f else f + 1)"

definition to_double :: "real \<Rightarrow> double" where
  "to_double x =
     (if x = 0 then 0
      else (case normalise \<bar>x\<bar> 0 of
              (m, e) \<Rightarrow> sgn x * of_int (round_even m) * 2 powi e))"

text \<open>The cast \<open>(double)x\<close> of an \<open>unsigned long long\<close>.\<close>

definition u64_to_double :: "u64 \<Rightarrow> double" where
  "u64_to_double x = to_double (real (unat x))"

section \<open>The usage calculator\<close>

text \<open>
  \<^verbatim>\<open>
  double calculate_cpu_usage(prev_idle, prev_total, idle, total, int ok) {
      if (!ok) return 0.0;
      if (total <= prev_total || prev_total == 0) return 0.0;
      unsigned long long idle_diff = idle - prev_idle;
      unsigned long long total_diff = total - prev_total;
      if (total_diff == 0) return 0.0;
      double usage = 100.0 * (1.0 - ((double)idle_diff / (double)total_diff));
      if (usage < 0.0) usage = 0.0;
      if (usage > 100.0) usage = 100.0;
      return usage;
  }
  \<close>
  The parameter \<open>total\<close> is written \<open>total_t\<close>, since \<open>total\<close> is a constant of HOL.
\<close>

definition calculate_cpu_usage :: "u64 \<Rightarrow> u64 \<Rightarrow> u64 \<Rightarrow> u64 \<Rightarrow> int \<Rightarrow> double" where
  "calculate_cpu_usage prev_idle prev_total idle total_t ok =
     (if ok = 0 then 0
      else if total_t \<le> prev_total \<or> prev_total = 0 then 0
      else
        let idle_diff = idle - prev_idle;
            total_diff = total_t - prev_total
        in if total_diff = 0 then 0
           else
             let usage =
                   to_double (100 *
                     to_double (1 -
                       to_double (u64_to_double idle_diff / u64_to_double total_diff)));
                 usage = (if usage < 0 then 0 else usage);
                 usage = (if usage > 100 then 100 else usage)
             in usage)"

text \<open>
  The formula of the specification, \<open>100 * (1 - idle_diff / total_diff)\<close> clamped into
  \<open>[0, 100]\<close> with \<open>idle_diff = curr.idle - prev.idle\<close> and
  \<open>total_diff = curr.total - prev.total\<close>, read in two ways: in exact arithmetic, and
  in double arithmetic, where the two differences are converted to \<open>double\<close> and the
  division, the subtraction and the multiplication each round.
\<close>

definition idle_diff_of :: "u64 \<Rightarrow> u64 \<Rightarrow> real" where
  "idle_diff_of prev_idle idle = real_of_int (uint idle - uint prev_idle)"

definition total_diff_of :: "u64 \<Rightarrow> u64 \<Rightarrow> real" where
  "total_diff_of prev_total total_t = real_of_int (uint total_t - uint prev_total)"

definition clamp_percent :: "real \<Rightarrow> real" where
  "clamp_percent x = max 0 (min 100 x)"

definition usage_formula :: "u64 \<Rightarrow> u64 \<Rightarrow> u64 \<Rightarrow> u64 \<Rightarrow> real" where
  "usage_formula prev_idle prev_total idle total_t =
     clamp_percent
       (100 * (1 - idle_diff_of prev_idle idle / total_diff_of prev_total total_t))"

definition usage_formula_double :: "u64 \<Rightarrow> u64 \<Rightarrow> u64 \<Rightarrow> u64 \<Rightarrow> double" where
  "usage_formula_double prev_idle prev_total idle total_t =
     clamp_percent
       (to_double (100 *
          to_double (1 -
            to_double (to_double (idle_diff_of prev_idle idle)
                         / to_double (total_diff_of prev_total total_t)))))"

section \<open>Reading the system-state sources\<close>

text \<open>
  A source under \<open>/proc\<close> is what \<open>fopen\<close> gives: \<open>None\<close> when it cannot be opened,
  otherwise a stream that is either broken (every read fails) or holds the bytes still
  to be read.
\<close>

datatype c_file = Broken | Data string

text \<open>
  \<open>fgets(line, n, fp)\<close> reads at most \<open>n - 1\<close> bytes and stops after a newline; it
  returns \<open>NULL\<close> at end of file with nothing read, and on a read error.
\<close>

fun read_line :: "nat \<Rightarrow> string \<Rightarrow> string \<times> string" where
  "read_line n [] = ([], [])"
| "read_line n (c # s) =
     (if n = 0 then ([], c # s)
      else if c = CHR 0x0A then ([c], s)
      else (case read_line (n - 1) s of (a, b) \<Rightarrow> (c # a, b)))"

fun fgets :: "nat \<Rightarrow> c_file \<Rightarrow> (string \<times> c_file) option" where
  "fgets n Broken = None"
| "fgets n (Data s) =
     (if s = [] then None
      else (case read_line (n - 1) s of (line, s') \<Rightarrow> Some (line, Data s')))"

fun unread :: "c_file \<Rightarrow> nat" where
  "unread Broken = 0"
| "unread (Data s) = length s"

text \<open>A C string ends at its first NUL byte.\<close>

definition c_str :: "string \<Rightarrow> string" where
  "c_str s = takeWhile (\<lambda>c. c \<noteq> CHR 0x00) s"

text \<open>\<open>strncmp(a, b, n) == 0\<close>: the first \<open>n\<close> bytes of the two C strings agree.\<close>

definition strncmp_eq :: "string \<Rightarrow> string \<Rightarrow> nat \<Rightarrow> bool" where
  "strncmp_eq a b n = (take n (c_str a) = take n (c_str b))"

subsection \<open>The core count\<close>

text \<open>
  \<^verbatim>\<open>
  int get_cpu_cores() {
      FILE *fp = fopen("/proc/cpuinfo", "r");
      if (!fp) return 1;
      int cores = 0;
      char line[256];
      while (fgets(line, sizeof(line), fp)) {
          if (strncmp(line, "processor", 9) == 0) cores++;
      }
      fclose(fp);
      return (cores > 0) ? cores : 1;
  }
  \<close>
  The counter is a 32-bit \<open>int\<close>; the model lets \<open>cores++\<close> wrap around.
\<close>

function count_loop :: "c_file \<Rightarrow> 32 word \<Rightarrow> 32 word" where
  "count_loop fp cores =
     (case fgets 256 fp of
        None \<Rightarrow> cores
      | Some (line, fp') \<Rightarrow>
          count_loop fp' (if strncmp_eq line ''processor'' 9 then cores + 1 else cores))"
  by pat_completeness auto
termination
proof (relation "measure (\<lambda>(fp, cores). unread fp)")
  show "wf (measure (\<lambda>(fp, cores). unread fp))" by simp
next
  fix fp :: c_file and cores :: "32 word" and x2 line fp'
  assume a: "fgets 256 fp = Some x2" "(line, fp') = x2"
  have shorter: "length (snd (read_line n s)) < length s" if "s \<noteq> []" "0 < n" for n s
    using that
  proof (induction s arbitrary: n)
    case Nil
    then show ?case by simp
  next
    case (Cons c r)
    show ?case
    proof (cases "r = [] \<or> n - 1 = 0")
      case True
      then show ?thesis using Cons.prems by (cases r) (auto split: prod.splits)
    next
      case False
      then have "length (snd (read_line (n - 1) r)) < length r"
        by (intro Cons.IH) auto
      then show ?thesis using Cons.prems by (auto split: prod.splits)
    qed
  qed
  from a obtain s where fp: "fp = Data s" "s \<noteq> []"
    by (cases fp) (auto split: if_splits)
  with a have "fp' = Data (snd (read_line 255 s))"
    by (auto split: prod.splits)
  moreover have "length (snd (read_line 255 s)) < length s"
    using shorter [of s 255] fp by simp
  ultimately show "((fp', if strncmp_eq line ''processor'' 9 then cores + 1 else cores),
      (fp, cores)) \<in> measure (\<lambda>(fp, cores). unread fp)"
    using fp by simp
qed

declare count_loop.simps [simp del]

definition get_cpu_cores :: "c_file option \<Rightarrow> int" where
  "get_cpu_cores cpuinfo =
     (case cpuinfo of
        None \<Rightarrow> 1
      | Some fp \<Rightarrow>
          let cores = count_loop fp 0
          in if sint cores > 0 then sint cores else 1)"

subsection \<open>The counter line\<close>

text \<open>
  \<open>sscanf(line, "cpu %llu %llu %llu %llu %llu %llu %llu %llu", ...)\<close>: the three
  letters must match; each \<open>%llu\<close> skips white space, then converts an optional sign
  and a non-empty run of decimal digits as \<open>strtoull\<close> does (a minus sign negates in
  64 bits, a value beyond \<open>ULLONG_MAX\<close> is stored as \<open>ULLONG_MAX\<close>). The scan stops at
  the first directive that fails; the result is the number of fields stored, or
  \<open>EOF = -1\<close> when the input ran out before the first field: at the end of the input
  a literal or the white space before a field is an input failure, anything else that
  is not a number is a matching failure.
\<close>

definition isspace :: "char \<Rightarrow> bool" where
  "isspace c = (c = CHR 0x20 \<or> (9 \<le> (of_char c :: nat) \<and> (of_char c :: nat) \<le> 13))"

definition isdigit :: "char \<Rightarrow> bool" where
  "isdigit c = (48 \<le> (of_char c :: nat) \<and> (of_char c :: nat) \<le> 57)"

definition digits_value :: "string \<Rightarrow> int" where
  "digits_value ds = foldl (\<lambda>a c. a * 10 + ((of_char c :: int) - 48)) 0 ds"

definition strtoull :: "bool \<Rightarrow> string \<Rightarrow> u64" where
  "strtoull neg ds =
     (let v = digits_value ds
      in if v > 2 ^ 64 - 1 then - 1
         else if neg then - (of_int v) else of_int v)"

datatype scan_result = Stored u64 string | Input_failure | Matching_failure

definition scan_llu :: "string \<Rightarrow> scan_result" where
  "scan_llu s =
     (case dropWhile isspace s of
        [] \<Rightarrow> Input_failure
      | c # r \<Rightarrow>
          let neg = (c = CHR ''-'');
              body = (if c = CHR ''-'' \<or> c = CHR ''+'' then r else c # r);
              ds = takeWhile isdigit body
          in if ds = [] then Matching_failure
             else Stored (strtoull neg ds) (dropWhile isdigit body))"

fun scan_fields :: "nat \<Rightarrow> string \<Rightarrow> u64 list \<times> bool" where
  "scan_fields n s =
     (if n = 0 then ([], False)
      else
        (case scan_llu s of
           Stored v r \<Rightarrow> (case scan_fields (n - 1) r of (vs, eof) \<Rightarrow> (v # vs, eof))
         | Input_failure \<Rightarrow> ([], True)
         | Matching_failure \<Rightarrow> ([], False)))"

declare scan_fields.simps [simp del]

fun match_literal :: "string \<Rightarrow> string \<Rightarrow> scan_result" where
  "match_literal [] s = Stored 0 s"
| "match_literal (p # ps) [] = Input_failure"
| "match_literal (p # ps) (c # cs) =
     (if p = c then match_literal ps cs else Matching_failure)"

definition sscanf_cpu :: "string \<Rightarrow> int \<times> u64 list" where
  "sscanf_cpu line =
     (case match_literal ''cpu'' (c_str line) of
        Stored _ r \<Rightarrow>
          (case scan_fields 8 r of
             (vs, eof) \<Rightarrow> (if vs = [] \<and> eof then - 1 else int (length vs), vs))
      | Input_failure \<Rightarrow> (- 1, [])
      | Matching_failure \<Rightarrow> (0, []))"

text \<open>A variable that \<open>sscanf\<close> did not store keeps its initial value 0.\<close>

definition field :: "u64 list \<Rightarrow> nat \<Rightarrow> u64" where
  "field vs k = (if k < length vs then vs ! k else 0)"

datatype log_msg =
    Warn_open_stat
  | Warn_read_stat
  | Warn_stat_format
  | Cpu_line double double double
  | Alert_triggered double
  | Warn_udp_send_failed
  | Sent_udp_alert

text \<open>
  \<^verbatim>\<open>
  void get_cpu_times(unsigned long long *idle, unsigned long long *total, int *ok) {
      *ok = 0;
      FILE *fp = fopen("/proc/stat", "r");
      if (!fp) { write_log("Warning: Failed to open /proc/stat: %s", ...); return; }
      char line[512];
      if (!fgets(line, sizeof(line), fp)) {
          write_log("Warning: Failed to read /proc/stat"); fclose(fp); return;
      }
      fclose(fp);
      unsigned long long user=0, nice=0, system=0, idle_time=0, iowait=0, irq=0,
                         softirq=0, steal=0;
      int cnt = sscanf(line, "cpu %llu %llu %llu %llu %llu %llu %llu %llu", ...);
      if (cnt < 4) { write_log("Warning: Unexpected /proc/stat format"); return; }
      *idle = idle_time + iowait;
      *total = user + nice + system + idle_time + iowait + irq + softirq + steal;
      *ok = 1;
  }
  \<close>
  The model takes the source and the values the two out-parameters hold on entry, and
  returns the values of \<open>*idle\<close>, \<open>*total\<close> and \<open>*ok\<close> on return with the messages handed
  to \<open>write_log\<close>. Every path of the function is a \<open>return\<close>: none calls \<open>exit\<close>.
\<close>

definition get_cpu_times ::
  "c_file option \<Rightarrow> u64 \<times> u64 \<Rightarrow> (u64 \<times> u64 \<times> int) \<times> log_msg list" where
  "get_cpu_times proc_stat entry =
     (case entry of (idle0, total0) \<Rightarrow>
      (case proc_stat of
         None \<Rightarrow> ((idle0, total0, 0), [Warn_open_stat])
       | Some fp \<Rightarrow>
           (case fgets 512 fp of
              None \<Rightarrow> ((idle0, total0, 0), [Warn_read_stat])
            | Some (line, _) \<Rightarrow>
                (case sscanf_cpu line of (cnt, vs) \<Rightarrow>
                   let user = field vs 0; nice = field vs 1; system = field vs 2;
                       idle_time = field vs 3; iowait = field vs 4; irq = field vs 5;
                       softirq = field vs 6; steal = field vs 7
                   in if cnt < 4 then ((idle0, total0, 0), [Warn_stat_format])
                      else ((idle_time + iowait,
                             user + nice + system + idle_time + iowait + irq + softirq + steal,
                             1), [])))))"

text \<open>
  The fields \<open>sscanf\<close> stores from the line \<open>get_cpu_times\<close> reads: \<open>None\<close> when the
  source cannot be opened or no line can be read from it.
\<close>

definition counter_fields :: "c_file option \<Rightarrow> u64 list option" where
  "counter_fields proc_stat =
     (case proc_stat of
        None \<Rightarrow> None
      | Some fp \<Rightarrow>
          (case fgets 512 fp of
             None \<Rightarrow> None
           | Some (line, _) \<Rightarrow> Some (snd (sscanf_cpu line))))"

subsection \<open>Lines of a text\<close>

text \<open>
  The lines of a text, each with its newline (the last one may lack it), and the
  number of lines that begin with the marker \<open>processor\<close>.
\<close>

fun split_lines :: "string \<Rightarrow> string list" where
  "split_lines [] = []"
| "split_lines (c # s) =
     (if c = CHR 0x0A then [c] # split_lines s
      else (case split_lines s of [] \<Rightarrow> [[c]] | l # ls \<Rightarrow> (c # l) # ls))"

definition processor_lines :: "string \<Rightarrow> nat" where
  "processor_lines s = length (filter (\<lambda>l. take 9 l = ''processor'') (split_lines s))"

section \<open>The main loop\<close>

text \<open>The configuration constants of the file.\<close>

definition ALERT_THRESHOLD :: double where
  "ALERT_THRESHOLD = 80"

definition SEND_ALERTS :: bool where
  "SEND_ALERTS = True"

subsection \<open>Running extremes\<close>

text \<open>
  \<^verbatim>\<open>
  if (cpu_usage > max_usage) max_usage = cpu_usage;
  if (cpu_usage < min_usage) min_usage = cpu_usage;
  \<close>
  on the pair \<open>(max_usage, min_usage)\<close>.
\<close>

definition update_extremes :: "double \<times> double \<Rightarrow> double \<Rightarrow> double \<times> double" where
  "update_extremes extremes cpu_usage =
     (case extremes of (max_usage, min_usage) \<Rightarrow>
        (if cpu_usage > max_usage then cpu_usage else max_usage,
         if cpu_usage < min_usage then cpu_usage else min_usage))"

subsection \<open>The usage bar\<close>

text \<open>
  \<^verbatim>\<open>
  int usage_bar_width = 40;
  int usage_fill = (int)((cpu_usage / 100.0) * usage_bar_width);
  if (usage_fill < 0) usage_fill = 0;
  if (usage_fill > usage_bar_width) usage_fill = usage_bar_width;
  mvprintw(9, 0, "[");
  for (int i = 0; i < usage_fill; ++i) mvprintw(9, i + 1, "#");
  for (int i = usage_fill; i < usage_bar_width; ++i) mvprintw(9, i + 1, "-");
  mvprintw(9, usage_bar_width + 1, "]");
  \<close>
  Row 9 of the screen is a map from columns to characters, empty after \<open>clear()\<close>. The
  cast of a \<open>double\<close> to \<open>int\<close> truncates towards zero; the division and the
  multiplication are double operations, the width being converted to \<open>double\<close>. The
  width is a parameter of the model; \<open>main\<close> uses 40.
\<close>

type_synonym screen_row = "int \<Rightarrow> char option"

definition int_cast :: "double \<Rightarrow> int" where
  "int_cast x = (if 0 \<le> x then \<lfloor>x\<rfloor> else \<lceil>x\<rceil>)"

definition mvprintw :: "int \<Rightarrow> char \<Rightarrow> screen_row \<Rightarrow> screen_row" where
  "mvprintw col c row = row(col := Some c)"

function fill_loop :: "int \<Rightarrow> int \<Rightarrow> char \<Rightarrow> screen_row \<Rightarrow> screen_row" where
  "fill_loop i bound c row =
     (if i < bound then fill_loop (i + 1) bound c (mvprintw (i + 1) c row) else row)"
  by pat_completeness auto
termination
  by (relation "measure (\<lambda>(i, bound, c, row). nat (bound - i))") auto

declare fill_loop.simps [simp del]

definition usage_fill_of :: "int \<Rightarrow> double \<Rightarrow> int" where
  "usage_fill_of usage_bar_width cpu_usage =
     (let usage_fill =
            int_cast (to_double (to_double (cpu_usage / 100)
                                   * to_double (real_of_int usage_bar_width)));
          usage_fill = (if usage_fill < 0 then 0 else usage_fill);
          usage_fill = (if usage_fill > usage_bar_width then usage_bar_width else usage_fill)
      in usage_fill)"

definition draw_bar :: "int \<Rightarrow> double \<Rightarrow> screen_row" where
  "draw_bar usage_bar_width cpu_usage =
     (let usage_fill = usage_fill_of usage_bar_width cpu_usage;
          row = mvprintw 0 CHR ''['' (\<lambda>col. None);
          row = fill_loop 0 usage_fill CHR ''#'' row;
          row = fill_loop usage_fill usage_bar_width CHR ''-'' row
      in mvprintw (usage_bar_width + 1) CHR '']'' row)"

text \<open>What the row shows in columns \<open>0 .. w + 1\<close>; a column never written is blank.\<close>

definition row_text :: "int \<Rightarrow> screen_row \<Rightarrow> string" where
  "row_text w row = map (\<lambda>col. case row col of None \<Rightarrow> CHR 0x20 | Some c \<Rightarrow> c) [0..w + 1]"

subsection \<open>Alerting\<close>

text \<open>
  What a tick does that the outside can see: lines handed to \<open>write_log\<close>, the bar
  drawn on row 9, the status line on row 11, and datagrams handed to \<open>sendto\<close>. An
  alert message is represented by the usage it reports.
\<close>

datatype event =
    Log log_msg
  | Bar string
  | Status_alert
  | Status_ok
  | Sendto double

text \<open>
  \<^verbatim>\<open>
  void send_udp_alert(const char *message) {
  #if SEND_ALERTS
      if (udp_sock < 0) return;
      ssize_t sent = sendto(udp_sock, message, len, 0, ...);
      if (sent < 0) write_log("Warning: UDP send failed: %s", ...);
      else write_log("Sent UDP alert (%zd bytes): %s", ...);
  #endif
  }
  \<close>
  \<open>sendto_ok\<close> says whether the transport accepts the datagram.
\<close>

definition send_udp_alert :: "int \<Rightarrow> bool \<Rightarrow> double \<Rightarrow> event list" where
  "send_udp_alert udp_sock sendto_ok message =
     (if SEND_ALERTS then
        (if udp_sock < 0 then []
         else [Sendto message,
               Log (if sendto_ok then Sent_udp_alert else Warn_udp_send_failed)])
      else [])"

text \<open>
  \<^verbatim>\<open>
  if (cpu_usage >= ALERT_THRESHOLD) {
      mvprintw(11, 0, "ALERT: CPU Usage Above %.1f%%", ALERT_THRESHOLD);
      snprintf(alert_msg, ...);
      write_log("ALERT triggered: %s", alert_msg);
      send_udp_alert(alert_msg);
  } else {
      mvprintw(11, 0, "Status: OK");
  }
  \<close>
\<close>

definition alert_step :: "int \<Rightarrow> bool \<Rightarrow> double \<Rightarrow> event list" where
  "alert_step udp_sock sendto_ok cpu_usage =
     (if cpu_usage \<ge> ALERT_THRESHOLD then
        [Status_alert, Log (Alert_triggered cpu_usage)]
          @ send_udp_alert udp_sock sendto_ok cpu_usage
      else [Status_ok])"

subsection \<open>One tick\<close>

text \<open>
  The variables of \<open>main\<close> that live across iterations, with the two globals the loop
  reads. Load averages and uptime are only displayed and logged; they are left out.
\<close>

record monitor =
  prev_idle :: u64
  prev_total :: u64
  idle :: u64
  total_t :: u64
  cpu_usage :: double
  max_usage :: double
  min_usage :: double
  ok_times :: int
  cycle :: "32 word"
  cpu_cores :: int
  udp_sock :: int
  keep_running :: int

text \<open>
  What the environment does during one iteration: the content of \<open>/proc/stat\<close>, the
  answer of \<open>sendto\<close>, the key \<open>getch()\<close> returns (\<open>ERR = -1\<close> for none), and whether a
  termination signal arrives before the next test of \<open>keep_running\<close>.
\<close>

record tick_env =
  proc_stat :: "c_file option"
  sendto_ok :: bool
  getch :: int
  signalled :: bool

text \<open>
  \<^verbatim>\<open>
  get_cpu_times(&idle, &total, &ok_times);
  double usage = calculate_cpu_usage(prev_idle, prev_total, idle, total, ok_times);
  if (ok_times) { prev_idle = idle; prev_total = total; }
  cpu_usage = usage;
  if (cpu_usage > max_usage) max_usage = cpu_usage;
  if (cpu_usage < min_usage) min_usage = cpu_usage;
  write_log("CPU: ... | Max: ... | Min: ...", ...);
  ... the bar ... the alert ...
  mvprintw(13, 0, "Press 'q' to quit. Cycle: %d", cycle++);
  \<close>
\<close>

definition tick :: "monitor \<Rightarrow> tick_env \<Rightarrow> monitor \<times> event list" where
  "tick st env =
     (case get_cpu_times (proc_stat env) (idle st, total_t st) of
        ((idle', total', ok'), warnings) \<Rightarrow>
          let usage = calculate_cpu_usage (prev_idle st) (prev_total st) idle' total' ok';
              prev_idle' = (if ok' \<noteq> 0 then idle' else prev_idle st);
              prev_total' = (if ok' \<noteq> 0 then total' else prev_total st);
              extremes = update_extremes (max_usage st, min_usage st) usage
          in (st\<lparr>prev_idle := prev_idle', prev_total := prev_total',
                  idle := idle', total_t := total', ok_times := ok',
                  cpu_usage := usage,
                  max_usage := fst extremes, min_usage := snd extremes,
                  cycle := cycle st + 1\<rparr>,
              map Log warnings
                @ [Log (Cpu_line usage (fst extremes) (snd extremes)),
                   Bar (row_text 40 (draw_bar 40 usage))]
                @ alert_step (udp_sock st) (sendto_ok env) usage))"

subsection \<open>The session\<close>

text \<open>
  \<^verbatim>\<open>
  unsigned long long prev_idle = 0ULL, prev_total = 0ULL;
  unsigned long long idle = 0ULL, total = 0ULL;
  double cpu_usage = 0.0;
  double max_usage = 0.0, min_usage = 100.0;
  int ok_times = 0, ok_sys = 0;
  int cycle = 0;
  \<close>
\<close>

definition main_init :: "c_file option \<Rightarrow> int \<Rightarrow> monitor" where
  "main_init cpuinfo sock =
     \<lparr>prev_idle = 0, prev_total = 0, idle = 0, total_t = 0,
      cpu_usage = 0, max_usage = 0, min_usage = 100,
      ok_times = 0, cycle = 0,
      cpu_cores = get_cpu_cores cpuinfo, udp_sock = sock, keep_running = 1\<rparr>"

text \<open>
  \<^verbatim>\<open>
  while (keep_running) {
      ... one tick ...
      int ch = getch();
      if (ch == 'q' || ch == 'Q') { keep_running = 0; break; }
      usleep(DELAY_US);
  }
  \<close>
  The loop has no bound of its own: the model runs it over the list of environments
  of the iterations observed, and returns the state after each iteration it runs.
\<close>

fun session :: "monitor \<Rightarrow> tick_env list \<Rightarrow> monitor list" where
  "session st [] = []"
| "session st (env # envs) =
     (if keep_running st = 0 then []
      else
        let st' = fst (tick st env)
        in if getch env = 113 \<or> getch env = 81 then [st'\<lparr>keep_running := 0\<rparr>]
           else
             let st'' = (if signalled env then st'\<lparr>keep_running := 0\<rparr> else st')
             in st'' # session st'' envs)"

text \<open>
  The extremes of \<open>b\<close> are at least as wide as those of \<open>a\<close>: the maximum has not
  decreased and the minimum has not increased.
\<close>

definition widened :: "monitor \<Rightarrow> monitor \<Rightarrow> bool" where
  "widened a b = (max_usage a \<le> max_usage b \<and> min_usage b \<le> min_usage a)"

section \<open>Example inputs\<close>

text \<open>
  Three successive contents of \<open>/proc/stat\<close> (idle and total ticks 820 of 980, then
  920 of 1180, then 970 of 1430), and an iteration in which no key is pressed, no
  signal arrives and the transport accepts the datagram.
\<close>

definition example_stat_1 :: string where
  "example_stat_1 = ''cpu  100 0 50 800 20 5 5 0'' @ [CHR 0x0A] @ ''cpu0 100 0 50 800 20 5 5 0''"

definition example_stat_2 :: string where
  "example_stat_2 = ''cpu  150 0 100 900 20 5 5 0'' @ [CHR 0x0A]"

definition example_stat_3 :: string where
  "example_stat_3 = ''cpu  350 0 100 950 20 5 5 0'' @ [CHR 0x0A]"

text \<open>
  A content of \<open>/proc/cpuinfo\<close> with two processors, and a text of a single line, 520
  bytes long, in which the marker occurs at offsets 255 and 510 but not at the start.
\<close>

definition example_cpuinfo :: string where
  "example_cpuinfo =
     ''processor : 0'' @ [CHR 0x0A] @ ''model name : x'' @ [CHR 0x0A]
       @ ''processor : 1'' @ [CHR 0x0A]"

definition example_long_line :: string where
  "example_long_line =
     replicate 255 CHR ''x'' @ ''processor'' @ replicate 246 CHR ''y''
       @ ''processor'' @ [CHR 0x0A]"

definition example_env :: "c_file option \<Rightarrow> tick_env" where
  "example_env src = \<lparr>proc_stat = src, sendto_ok = True, getch = - 1, signalled = False\<rparr>"

definition example_session :: "monitor list" where
  "example_session =
     session (main_init None 3)
       [example_env (Some (Data example_stat_1)),
        example_env (Some (Data example_stat_2)),
        example_env None,
        example_env (Some (Data example_stat_3))]"

section \<open>Properties of double arithmetic\<close>

text \<open>
  Scaling keeps the value and ends in \<open>[2^52, 2^53)\<close>; rounding is exact on integers
  below \<open>2^53\<close>, keeps the sign, and changes a value by at most the fraction \<open>2^-53\<close> of
  its magnitude.
\<close>

lemma normalise_spec:
  assumes "0 < m" and "normalise m e = (m', e')"
  shows "m' * 2 powi e' = m * 2 powi e" and "2 ^ 52 \<le> m'" and "m' < 2 ^ 53"
proof -
  have "0 < m \<longrightarrow> (case normalise m e of (m', e') \<Rightarrow>
          m' * 2 powi e' = m * 2 powi e \<and> 2 ^ 52 \<le> m' \<and> m' < 2 ^ 53)"
  proof (induction m e rule: normalise.induct)
    case (1 m e)
    show ?case
    proof
      assume pos: "0 < m"
      consider (big) "2 ^ 53 \<le> m" | (small) "m < 2 ^ 52" | (ok) "2 ^ 52 \<le> m" "m < 2 ^ 53"
        by linarith
      then show "case normalise m e of (m', e') \<Rightarrow>
          m' * 2 powi e' = m * 2 powi e \<and> 2 ^ 52 \<le> m' \<and> m' < 2 ^ 53"
      proof cases
        case big
        then have eq: "normalise m e = normalise (m / 2) (e + 1)"
          using pos by (subst normalise.simps) simp
        have "(2::real) powi (e + 1) = 2 powi e * 2" by (simp add: power_int_add)
        then have "m / 2 * 2 powi (e + 1) = m * 2 powi e" by simp
        then show ?thesis
          using "1.IH"(1) pos big eq by (auto split: prod.splits)
      next
        case small
        then have eq: "normalise m e = normalise (2 * m) (e - 1)"
          using pos by (subst normalise.simps) simp
        have "(2::real) powi e = 2 powi (e - 1 + 1)" by simp
        also have "\<dots> = 2 powi (e - 1) * 2" by (subst power_int_add) simp_all
        finally have "2 * m * 2 powi (e - 1) = m * 2 powi e" by simp
        then show ?thesis
          using "1.IH"(2) pos small eq by (auto split: prod.splits)
      next
        case ok
        then have "normalise m e = (m, e)"
          using pos by (subst normalise.simps) simp
        then show ?thesis using ok by simp
      qed
    qed
  qed
  then show "m' * 2 powi e' = m * 2 powi e" and "2 ^ 52 \<le> m'" and "m' < 2 ^ 53"
    using assms by auto
qed

lemma normalise_int:
  "0 < m \<Longrightarrow> m < 2 ^ 53 \<Longrightarrow> m \<in> \<int> \<Longrightarrow> fst (normalise m e) \<in> \<int>"
proof (induction m e rule: normalise.induct)
  case (1 m e)
  show ?case
  proof (cases "m < 2 ^ 52")
    case True
    then have eq: "normalise m e = normalise (2 * m) (e - 1)"
      using "1.prems" by (subst normalise.simps) simp
    obtain i :: int where "m = of_int i" using "1.prems"(3) by (auto simp add: Ints_def)
    then have "2 * m = of_int (2 * i)" by simp
    then have "2 * m \<in> \<int>" by (simp only: Ints_of_int)
    then show ?thesis
      using "1.IH"(2) "1.prems" True eq by simp
  next
    case False
    then have "normalise m e = (m, e)"
      using "1.prems" by (subst normalise.simps) simp
    then show ?thesis using "1.prems" by simp
  qed
qed

lemma round_even_error: "\<bar>of_int (round_even x) - x\<bar> \<le> 1 / 2"
  by (simp add: round_even_def Let_def; linarith)

lemma round_even_int: "round_even (of_int k) = k"
  by (simp add: round_even_def)

lemma round_even_nonneg: "0 \<le> x \<Longrightarrow> 0 \<le> round_even x"
  by (simp add: round_even_def Let_def)

lemma to_double_minus: "to_double (- x) = - to_double x"
  by (simp add: to_double_def sgn_minus split: prod.splits)

lemma to_double_nonneg: "0 \<le> x \<Longrightarrow> 0 \<le> to_double x"
proof (cases "x = 0")
  case True
  then show ?thesis by (simp add: to_double_def)
next
  case False
  assume "0 \<le> x"
  with False have pos: "0 < x" by simp
  obtain m e where n: "normalise \<bar>x\<bar> 0 = (m, e)" by (cases "normalise \<bar>x\<bar> 0")
  have "0 \<le> m" using normalise_spec(2) [OF _ n] pos by simp
  then have "0 \<le> round_even m" by (rule round_even_nonneg)
  then show ?thesis using pos n by (simp add: to_double_def)
qed

lemma to_double_nonpos: "x \<le> 0 \<Longrightarrow> to_double x \<le> 0"
  using to_double_nonneg [of "- x"] by (simp add: to_double_minus)

lemma to_double_error: "\<bar>to_double x - x\<bar> \<le> \<bar>x\<bar> / 2 ^ 53"
proof (cases "x = 0")
  case True
  then show ?thesis by (simp add: to_double_def)
next
  case False
  obtain m e where n: "normalise \<bar>x\<bar> 0 = (m, e)" by (cases "normalise \<bar>x\<bar> 0")
  have abs_pos: "0 < \<bar>x\<bar>" using False by simp
  note sp = normalise_spec [OF abs_pos n]
  have p: "0 < (2::real) powi e" by simp
  have x: "x = sgn x * (m * 2 powi e)" using sp(1) by (simp add: sgn_mult_abs)
  have "to_double x - x = sgn x * ((of_int (round_even m) - m) * 2 powi e)"
    using n False x by (simp add: to_double_def algebra_simps)
  then have "\<bar>to_double x - x\<bar> = \<bar>of_int (round_even m) - m\<bar> * 2 powi e"
    using False by (simp add: abs_mult abs_sgn_eq)
  also have "\<dots> \<le> 1 / 2 * 2 powi e"
    using round_even_error [of m] p by (intro mult_right_mono) auto
  also have "\<dots> \<le> m / 2 ^ 53 * 2 powi e"
    using sp(2) p by (intro mult_right_mono) auto
  also have "\<dots> = \<bar>x\<bar> / 2 ^ 53" using sp(1) by simp
  finally show ?thesis .
qed

lemma to_double_of_int:
  assumes "\<bar>k\<bar> < 2 ^ 53"
  shows "to_double (of_int k) = of_int k"
proof -
  have pos: "to_double (of_int j) = of_int j" if "0 < j" "j < 2 ^ 53" for j :: int
  proof -
    obtain m e where n: "normalise (of_int j) 0 = (m, e)" by (cases "normalise (of_int j :: real) 0")
    have j: "0 < (of_int j :: real)" "(of_int j :: real) < 2 ^ 53"
      using that by (simp_all add: of_int_less_numeral_power_cancel_iff)
    note sp = normalise_spec [OF j(1) n]
    have "m \<in> \<int>" using normalise_int [OF j, of 0] n by simp
    then obtain i where "m = of_int i" by (auto simp add: Ints_def)
    then have "of_int (round_even m) = m" by (simp add: round_even_int)
    then show ?thesis using n sp(1) j(1) by (simp add: to_double_def)
  qed
  consider "k = 0" | "0 < k" | "k < 0" by linarith
  then show ?thesis
  proof cases
    case 1
    then show ?thesis by (simp add: to_double_def)
  next
    case 2
    then show ?thesis using pos [of k] assms by simp
  next
    case 3
    then have "to_double (of_int (- k)) = of_int (- k)" using pos [of "- k"] assms by simp
    then show ?thesis by (simp add: to_double_minus)
  qed
qed

lemma to_double_bounds:
  assumes "0 \<le> x"
  shows "(1 - 1 / 2 ^ 53) * x \<le> to_double x" and "to_double x \<le> (1 + 1 / 2 ^ 53) * x"
proof -
  have "\<bar>to_double x - x\<bar> \<le> x / 2 ^ 53" using to_double_error [of x] assms by simp
  then have h: "to_double x - x \<le> x / 2 ^ 53" "x - to_double x \<le> x / 2 ^ 53"
    by linarith+
  show "(1 - 1 / 2 ^ 53) * x \<le> to_double x" using h(2) by (simp add: left_diff_distrib)
  show "to_double x \<le> (1 + 1 / 2 ^ 53) * x" using h(1) by (simp add: distrib_right)
qed

lemma clamp_percent_lipschitz: "\<bar>clamp_percent x - clamp_percent y\<bar> \<le> \<bar>x - y\<bar>"
  by (simp add: clamp_percent_def max_def min_def)

lemma usage_accuracy:
  assumes I: "0 \<le> I" and T: "0 < T"
  shows "\<bar>clamp_percent (to_double (100 * to_double (1 - to_double (to_double I / to_double T))))
          - clamp_percent (100 * (1 - I / T))\<bar> \<le> 1400 / 2 ^ 53"
proof -
  define e :: real where "e = 1 / 2 ^ 53"
  define a where "a = to_double I"
  define b where "b = to_double T"
  define r where "r = I / T"
  define q where "q = to_double (a / b)"
  define s where "s = to_double (1 - q)"
  define p where "p = to_double (100 * s)"
  have e: "0 < e" "e < 1 / 1000" by (simp_all add: e_def)
  have r0: "0 \<le> r" using I T by (simp add: r_def)
  have a: "(1 - e) * I \<le> a" "a \<le> (1 + e) * I"
    using to_double_bounds [OF I] by (simp_all add: a_def e_def)
  have b: "(1 - e) * T \<le> b" "b \<le> (1 + e) * T"
    using to_double_bounds [of T] T by (simp_all add: b_def e_def)
  have "0 < 1 - e" using e by simp
  then have bpos2: "0 < (1 - e) * T" using T by (rule mult_pos_pos)
  then have bpos1: "0 < b" using b(1) by (rule less_le_trans)
  note bpos = bpos1 bpos2
  have a0: "0 \<le> a" using to_double_nonneg [OF I] by (simp add: a_def)
  have up: "a / b \<le> (1 + 3 * e) * r"
  proof -
    have "a / b \<le> ((1 + e) * I) / ((1 - e) * T)"
      using a0 a(2) bpos b(1) by (intro frac_le) auto
    also have "\<dots> = ((1 + e) / (1 - e)) * r" using e by (simp add: r_def)
    also have "\<dots> \<le> (1 + 3 * e) * r"
    proof (rule mult_right_mono [OF _ r0])
      have "1 + e \<le> (1 + 3 * e) * (1 - e)" using e by (simp add: algebra_simps)
      then show "(1 + e) / (1 - e) \<le> 1 + 3 * e" using e by (simp add: pos_divide_le_eq)
    qed
    finally show ?thesis .
  qed
  have lo: "(1 - 2 * e) * r \<le> a / b"
  proof -
    have "(1 - 2 * e) * r \<le> ((1 - e) / (1 + e)) * r"
    proof (rule mult_right_mono [OF _ r0])
      have "(1 - 2 * e) * (1 + e) \<le> 1 - e" using e by (simp add: algebra_simps)
      then show "1 - 2 * e \<le> (1 - e) / (1 + e)" using e by (simp add: pos_le_divide_eq)
    qed
    also have "\<dots> = ((1 - e) * I) / ((1 + e) * T)" using e by (simp add: r_def)
    also have "\<dots> \<le> a / b"
      using a0 a(1) bpos(1) b(2) by (rule frac_le)
    finally show ?thesis .
  qed
  have ab0: "0 \<le> a / b" using a0 bpos by simp
  have q: "(1 - e) * (a / b) \<le> q" "q \<le> (1 + e) * (a / b)"
    using to_double_bounds [OF ab0] by (simp_all add: q_def e_def)
  have qup: "q \<le> (1 + 5 * e) * r"
  proof -
    have "q \<le> (1 + e) * ((1 + 3 * e) * r)"
      using q(2) up e by (meson less_eq_real_def mult_left_mono order_trans add_pos_pos zero_less_one)
    also have "\<dots> = ((1 + e) * (1 + 3 * e)) * r" by simp
    also have "\<dots> \<le> (1 + 5 * e) * r"
    proof (rule mult_right_mono [OF _ r0])
      have "3 * (e * e) \<le> e" using e by (simp add: mult_le_cancel_right1 flip: mult.assoc) 
      then show "(1 + e) * (1 + 3 * e) \<le> 1 + 5 * e" by (simp add: algebra_simps)
    qed
    finally show ?thesis .
  qed
  have qlo: "(1 - 5 * e) * r \<le> q"
  proof -
    have "(1 - 5 * e) * r \<le> ((1 - e) * (1 - 2 * e)) * r"
    proof (rule mult_right_mono [OF _ r0])
      have "0 \<le> e * e" by simp
      then show "1 - 5 * e \<le> (1 - e) * (1 - 2 * e)" using e by (simp add: algebra_simps)
    qed
    also have "\<dots> = (1 - e) * ((1 - 2 * e) * r)" by simp
    also have "\<dots> \<le> (1 - e) * (a / b)" using lo e by (intro mult_left_mono) auto
    also have "\<dots> \<le> q" by (rule q(1))
    finally show ?thesis .
  qed
  show ?thesis
  proof (cases "r \<le> 2")
    case True
    have "5 * e * r \<le> 10 * e" using True e by simp
    then have qr: "\<bar>q - r\<bar> \<le> 10 * e" using qup qlo by (simp add: algebra_simps abs_le_iff)
    have one_q: "\<bar>1 - q\<bar> \<le> 2" using qr True r0 e by (simp add: abs_le_iff)
    have "\<bar>s - (1 - q)\<bar> \<le> \<bar>1 - q\<bar> * e" using to_double_error [of "1 - q"] by (simp add: s_def e_def)
    also have "\<dots> \<le> 2 * e" using one_q e by (intro mult_right_mono) auto
    finally have sq: "\<bar>s - (1 - q)\<bar> \<le> 2 * e" .
    have sr: "\<bar>s - (1 - r)\<bar> \<le> 12 * e" using sq qr by (simp add: abs_le_iff)
    have s2: "\<bar>s\<bar> \<le> 2" using sr True r0 e by (simp add: abs_le_iff)
    have "\<bar>p - 100 * s\<bar> \<le> \<bar>100 * s\<bar> * e"
      using to_double_error [of "100 * s"] by (simp add: p_def e_def)
    also have "\<dots> \<le> 200 * e" using s2 e by (intro mult_right_mono) (auto simp add: abs_mult)
    finally have ps: "\<bar>p - 100 * s\<bar> \<le> 200 * e" .
    have "\<bar>p - 100 * (1 - r)\<bar> \<le> 1400 * e" using ps sr by (simp add: abs_le_iff)
    then have "\<bar>clamp_percent p - clamp_percent (100 * (1 - r))\<bar> \<le> 1400 * e"
      using clamp_percent_lipschitz [of p "100 * (1 - r)"] by linarith
    then show ?thesis by (simp add: p_def s_def q_def a_def b_def r_def e_def)
  next
    case False
    then have r2: "2 < r" by simp
    have "1 < (1 - 5 * e) * 2" using e by simp
    also have "\<dots> \<le> (1 - 5 * e) * r" using r2 e by (intro mult_left_mono) auto
    finally have "1 < q" using qlo by simp
    then have "s \<le> 0" unfolding s_def by (intro to_double_nonpos) simp
    then have "p \<le> 0" unfolding p_def by (intro to_double_nonpos) simp
    then have "clamp_percent p = 0" by (simp add: clamp_percent_def)
    moreover have "clamp_percent (100 * (1 - r)) = 0" using r2 by (simp add: clamp_percent_def)
    ultimately show ?thesis by (simp add: p_def s_def q_def a_def b_def r_def)
  qed
qed

lemmas dbl_eval = to_double_def normalise.simps round_even_def

section \<open>Properties of the usage calculator\<close>

lemma calculate_cpu_usage_nonneg: "0 \<le> calculate_cpu_usage p_i p_t i t ok"
  by (simp add: calculate_cpu_usage_def Let_def)

lemma calculate_cpu_usage_le_100: "calculate_cpu_usage p_i p_t i t ok \<le> 100"
  by (simp add: calculate_cpu_usage_def Let_def)

lemma calculate_cpu_usage_first: "calculate_cpu_usage p_i 0 i t ok = 0"
  by (simp add: calculate_cpu_usage_def)

lemma plain_difference:
  "p \<le> c \<Longrightarrow> real (unat (c - p)) = real_of_int (uint c - uint p)"
  by (simp add: unat_sub word_le_nat_alt of_nat_diff)

text \<open>
  The double expressions of the examples, evaluated once.
\<close>

lemma double_usage_examples:
  "to_double (100 * to_double (1 - to_double (to_double 50 / to_double 200))) = 75"
  "to_double (100 * to_double (1 - to_double (to_double 100 / to_double 200))) = 50"
  "to_double (100 * to_double (1 - to_double (to_double 50 / to_double 250))) = 80"
  "to_double (100 * to_double (1 - to_double (to_double 4 / to_double 5)))
     = 5629499534213119 / 281474976710656"
  "to_double (100 * to_double (1 - to_double (to_double 11 / to_double 20)))
     = 6333186975989759 / 140737488355328"
  "to_double (100 * to_double (1 -
     to_double (to_double 18446744073709551566 / to_double 200))) = - 9223372036854775808"
  by (simp_all add: dbl_eval)

text \<open>
  Claim C1, as amended. When the sample is valid (\<open>ok\<close> is not 0), the current total is
  greater than the previous total, the previous total is not 0 and the idle counter
  has not decreased, the calculator returns \<open>100 * (1 - idle_diff / total_diff)\<close>
  evaluated in double arithmetic and clamped into \<open>[0, 100]\<close>, where
  \<open>idle_diff = curr.idle - prev.idle\<close> and \<open>total_diff = curr.total - prev.total\<close>; the
  result is within \<open>1400 / 2^53\<close> of the exact clamped value.
\<close>

theorem usage_formula_when_computable:
  assumes "ok \<noteq> 0" and "p_total < c_total" and "p_total \<noteq> 0" and "p_idle \<le> c_idle"
  shows "calculate_cpu_usage p_idle p_total c_idle c_total ok
           = usage_formula_double p_idle p_total c_idle c_total
     \<and> \<bar>calculate_cpu_usage p_idle p_total c_idle c_total ok
          - usage_formula p_idle p_total c_idle c_total\<bar> \<le> 1400 / 2 ^ 53"
proof -
  from assms(2) have nz: "c_total - p_total \<noteq> 0" by simp
  from assms(2) have nle: "\<not> c_total \<le> p_total" by simp
  from assms(2) have le: "p_total \<le> c_total" by simp
  have I: "u64_to_double (c_idle - p_idle) = to_double (idle_diff_of p_idle c_idle)"
    using plain_difference [OF assms(4)] by (simp add: u64_to_double_def idle_diff_of_def)
  have T: "u64_to_double (c_total - p_total) = to_double (total_diff_of p_total c_total)"
    using plain_difference [OF le] by (simp add: u64_to_double_def total_diff_of_def)
  have code: "calculate_cpu_usage p_idle p_total c_idle c_total ok
           = usage_formula_double p_idle p_total c_idle c_total"
    using assms(1,3) nz nle
    by (simp add: calculate_cpu_usage_def usage_formula_double_def clamp_percent_def
        Let_def max_def min_def I T)
  have "0 \<le> uint c_idle - uint p_idle" using assms(4) by (simp add: word_le_def)
  then have i0: "0 \<le> idle_diff_of p_idle c_idle"
    unfolding idle_diff_of_def by (simp only: of_int_0_le_iff)
  have "0 < uint c_total - uint p_total" using assms(2) by (simp add: word_less_def)
  then have t0: "0 < total_diff_of p_total c_total"
    unfolding total_diff_of_def by (simp only: of_int_0_less_iff)
  show ?thesis
    using usage_accuracy [OF i0 t0]
    by (simp add: code usage_formula_double_def usage_formula_def)
qed

text \<open>
  The scenario of the specification: previous sample \<open>{idle: 100, total: 200}\<close>, current
  sample \<open>{idle: 150, total: 400}\<close>, usage exactly 75.
\<close>

theorem usage_formula_witness:
  "(1::int) \<noteq> 0 \<and> (200::u64) < 400 \<and> (200::u64) \<noteq> 0 \<and> (100::u64) \<le> 150
     \<and> calculate_cpu_usage 100 200 150 400 1 = 75"
proof -
  have "usage_formula_double 100 200 150 400 = 75"
    by (simp add: usage_formula_double_def clamp_percent_def idle_diff_of_def
        total_diff_of_def double_usage_examples)
  then show ?thesis
    using usage_formula_when_computable [where ok = 1 and p_total = 200 and c_total = 400
      and p_idle = 100 and c_idle = 150]
    by simp
qed

text \<open>
  The claim as stated, with the exact formula and no further condition, fails in
  three ways. From the zero sample to \<open>{idle: 0, total: 100}\<close> the formula gives 100 and
  the code 0, by its guard \<open>prev_total == 0\<close>. For an idle difference of 4 in a total
  difference of 5 the formula gives 20 and the code the double next below 20, since
  the quotient \<open>4 / 5\<close> is not a double. When the idle counter decreases from 100 to 50
  while the total goes from 200 to 400, the formula clamps to 100 and the code returns
  0, since its unsigned subtraction wraps around.
\<close>

theorem usage_formula_counterexample:
  "usage_formula 0 0 0 100 = 100 \<and> calculate_cpu_usage 0 0 0 100 1 = 0
   \<and> usage_formula 0 5 4 10 = 20
   \<and> calculate_cpu_usage 0 5 4 10 1 = 5629499534213119 / 281474976710656
   \<and> usage_formula 100 200 50 400 = 100 \<and> calculate_cpu_usage 100 200 50 400 1 = 0"
  by (simp add: calculate_cpu_usage_def usage_formula_def clamp_percent_def idle_diff_of_def
      total_diff_of_def Let_def u64_to_double_def double_usage_examples)

text \<open>
  Claim C2. The calculator returns 0 when the sample is not valid, when the current
  total is not greater than the previous total, and when the previous sample is the
  zero sample, whatever the other arguments are.
\<close>

theorem degenerate_usage_is_zero:
  assumes "ok = 0 \<or> c_total \<le> p_total \<or> (p_idle = 0 \<and> p_total = 0)"
  shows "calculate_cpu_usage p_idle p_total c_idle c_total ok = 0"
  using assms by (auto simp add: calculate_cpu_usage_def)

theorem degenerate_usage_witness:
  "calculate_cpu_usage 100 200 150 400 0 = 0
     \<and> calculate_cpu_usage 100 400 150 400 1 = 0
     \<and> calculate_cpu_usage 100 400 150 300 1 = 0
     \<and> calculate_cpu_usage 0 0 150 400 1 = 0"
  using degenerate_usage_is_zero [where ok = 0 and c_total = 400 and p_total = 200
      and p_idle = 100 and c_idle = 150]
    degenerate_usage_is_zero [where ok = 1 and c_total = 400 and p_total = 400
      and p_idle = 100 and c_idle = 150]
    degenerate_usage_is_zero [where ok = 1 and c_total = 300 and p_total = 400
      and p_idle = 100 and c_idle = 150]
    degenerate_usage_is_zero [where ok = 1 and c_total = 400 and p_total = 0
      and p_idle = 0 and c_idle = 150]
  by simp

section \<open>Properties of the sampler\<close>

lemma sscanf_cpu_count:
  "fst (sscanf_cpu line) < 4 \<longleftrightarrow> length (snd (sscanf_cpu line)) < 4"
  by (auto simp add: sscanf_cpu_def split: scan_result.splits prod.splits)

text \<open>
  Claim C3. Let the fields be those that \<open>sscanf\<close> stores from the counter line. When
  there are at least four, \<open>get_cpu_times\<close> sets \<open>ok\<close> to 1, the idle ticks to
  \<open>idle + iowait\<close> and the total ticks to the sum of the eight fields (a field not
  stored counts as 0; sums are taken in 64 bits). Otherwise, that is when the source
  cannot be opened, no line can be read from it, or fewer than four fields are stored,
  it sets \<open>ok\<close> to 0 and leaves the two counters as they were. In every case the
  function returns to its caller.
\<close>

theorem get_cpu_times_contract:
  "fst (get_cpu_times src (i0, t0)) =
     (case counter_fields src of
        None \<Rightarrow> (i0, t0, 0)
      | Some vs \<Rightarrow>
          if length vs < 4 then (i0, t0, 0)
          else (field vs 3 + field vs 4,
                field vs 0 + field vs 1 + field vs 2 + field vs 3 + field vs 4
                  + field vs 5 + field vs 6 + field vs 7,
                1))
   \<and> (counter_fields src = None
        \<longleftrightarrow> src = None \<or> src = Some Broken \<or> src = Some (Data []))"
proof
  show "fst (get_cpu_times src (i0, t0)) =
     (case counter_fields src of
        None \<Rightarrow> (i0, t0, 0)
      | Some vs \<Rightarrow>
          if length vs < 4 then (i0, t0, 0)
          else (field vs 3 + field vs 4,
                field vs 0 + field vs 1 + field vs 2 + field vs 3 + field vs 4
                  + field vs 5 + field vs 6 + field vs 7,
                1))"
  proof (cases src)
    case None
    then show ?thesis by (simp add: get_cpu_times_def counter_fields_def)
  next
    case (Some fp)
    show ?thesis
    proof (cases "fgets 512 fp")
      case None
      with Some show ?thesis by (simp add: get_cpu_times_def counter_fields_def)
    next
      case (Some a)
      obtain line r where a: "a = (line, r)" by (cases a)
      obtain cnt vs where sc: "sscanf_cpu line = (cnt, vs)" by (cases "sscanf_cpu line")
      have "cnt < 4 \<longleftrightarrow> length vs < 4" using sscanf_cpu_count [of line] sc by simp
      with Some \<open>src = Some fp\<close> a sc show ?thesis
        by (simp add: get_cpu_times_def counter_fields_def Let_def)
    qed
  qed
next
  show "counter_fields src = None
        \<longleftrightarrow> src = None \<or> src = Some Broken \<or> src = Some (Data [])"
  proof (cases src)
    case None
    then show ?thesis by (simp add: counter_fields_def)
  next
    case (Some fp)
    then show ?thesis
      by (cases fp) (auto simp add: counter_fields_def split: option.splits prod.splits)
  qed
qed

theorem get_cpu_times_contract_witness:
  "fst (get_cpu_times
      (Some (Data (''cpu  100 0 50 800 20 5 5 0'' @ [CHR 0x0A] @ ''cpu0 1 2 3 4 5 6 7 8'')))
      (7, 9)) = (820, 980, 1)
   \<and> fst (get_cpu_times (Some (Data (''cpu  100 0 50'' @ [CHR 0x0A]))) (7, 9)) = (7, 9, 0)
   \<and> fst (get_cpu_times (Some (Data [])) (7, 9)) = (7, 9, 0)
   \<and> fst (get_cpu_times None (7, 9)) = (7, 9, 0)"
  using get_cpu_times_contract
      [of "Some (Data (''cpu  100 0 50 800 20 5 5 0'' @ [CHR 0x0A] @ ''cpu0 1 2 3 4 5 6 7 8''))" 7 9]
    get_cpu_times_contract [of "Some (Data (''cpu  100 0 50'' @ [CHR 0x0A]))" 7 9]
    get_cpu_times_contract [of "Some (Data [])" 7 9]
    get_cpu_times_contract [of None 7 9]
  by (simp add: counter_fields_def sscanf_cpu_def c_str_def scan_llu_def isspace_def
      isdigit_def strtoull_def digits_value_def field_def Let_def scan_fields.simps)

subsection \<open>The core count\<close>

lemma sint_of_nat_small:
  "k < 2 ^ 31 \<Longrightarrow> sint (of_nat k :: 32 word) = int k"
  by (simp add: signed_of_nat signed_take_bit_int_eq_self)

lemma strncmp_processor:
  "strncmp_eq line ''processor'' 9 \<longleftrightarrow> take 9 line = ''processor''"
proof -
  let ?P = "\<lambda>c. c \<noteq> CHR 0x00"
  have lit: "take 9 (c_str ''processor'') = ''processor''" by (simp add: c_str_def)
  have "take 9 (takeWhile ?P line) = ''processor'' \<longleftrightarrow> take 9 line = ''processor''"
  proof
    assume a: "take 9 (takeWhile ?P line) = ''processor''"
    then have "length (take 9 (takeWhile ?P line)) = 9" by simp
    then have len: "9 \<le> length (takeWhile ?P line)" by simp
    have "take 9 line = take 9 (takeWhile ?P line @ dropWhile ?P line)" by simp
    also have "\<dots> = take 9 (takeWhile ?P line)" using len by (simp del: takeWhile_dropWhile_id)
    finally show "take 9 line = ''processor''" using a by simp
  next
    assume a: "take 9 line = ''processor''"
    then have all: "\<forall>c \<in> set (take 9 line). ?P c" by simp
    have "takeWhile ?P line = takeWhile ?P (take 9 line @ drop 9 line)" by simp
    also have "\<dots> = take 9 line @ takeWhile ?P (drop 9 line)"
    proof (rule takeWhile_append2)
      fix x
      assume "x \<in> set (take 9 line)"
      then show "x \<noteq> CHR 0x00" using all by blast
    qed
    finally show "take 9 (takeWhile ?P line) = ''processor''" using a by simp
  qed
  then show ?thesis using lit by (simp add: strncmp_eq_def c_str_def)
qed

lemma split_lines_Nil: "split_lines s = [] \<longleftrightarrow> s = []"
  by (cases s) (auto split: list.splits)

lemma read_line_split:
  "s \<noteq> [] \<Longrightarrow> length (hd (split_lines s)) \<le> n \<Longrightarrow> read_line n s = (l, r)
     \<Longrightarrow> split_lines s = l # split_lines r"
proof (induction s arbitrary: n l r)
  case Nil
  then show ?case by simp
next
  case (Cons c s)
  show ?case
  proof (cases "c = CHR 0x0A")
    case True
    then show ?thesis using Cons.prems by (auto split: if_splits)
  next
    case nl: False
    show ?thesis
    proof (cases "s = []")
      case True
      then show ?thesis using Cons.prems nl by (auto split: if_splits)
    next
      case False
      then obtain l0 ls where sl: "split_lines s = l0 # ls"
        using split_lines_Nil [of s] by (cases "split_lines s") auto
      obtain a b where rl: "read_line (n - 1) s = (a, b)" by (cases "read_line (n - 1) s")
      have len: "length l0 \<le> n - 1" "n \<noteq> 0" using Cons.prems(2) nl sl by auto
      have "split_lines s = a # split_lines b"
        using False len(1) rl sl by (intro Cons.IH) auto
      then show ?thesis using Cons.prems(3) nl rl len(2) sl by auto
    qed
  qed
qed

lemma count_loop_lines:
  "\<forall>l \<in> set (split_lines s). length l \<le> 255 \<Longrightarrow>
     count_loop (Data s) c = c + of_nat (processor_lines s)"
proof (induction "split_lines s" arbitrary: s c)
  case Nil
  then have "s = []" using split_lines_Nil [of s] by simp
  then show ?case by (subst count_loop.simps) (simp add: processor_lines_def)
next
  case (Cons l ls)
  then have ne: "s \<noteq> []" using split_lines_Nil [of s] by auto
  obtain l' r where rl: "read_line 255 s = (l', r)" by (cases "read_line 255 s")
  have hd: "length (hd (split_lines s)) \<le> 255"
    using Cons.hyps(2) [symmetric] Cons.prems by simp
  have sp: "split_lines s = l' # split_lines r"
    using ne hd rl by (rule read_line_split)
  then have eq: "l' = l" "ls = split_lines r" using Cons.hyps(2) by simp_all
  have rest: "\<forall>l \<in> set (split_lines r). length l \<le> 255" using Cons.prems sp by simp
  have ih: "count_loop (Data r) d = d + of_nat (processor_lines r)" for d
    using eq(2) rest by (rule Cons.hyps(1))
  have pl: "processor_lines s = (if take 9 l' = ''processor'' then 1 else 0) + processor_lines r"
    using sp by (simp add: processor_lines_def)
  have "count_loop (Data s) c =
      count_loop (Data r) (if strncmp_eq l' ''processor'' 9 then c + 1 else c)"
    using ne rl by (subst count_loop.simps) simp
  then show ?case
    by (simp add: ih pl strncmp_processor)
qed


lemma get_cpu_cores_ge_1: "1 \<le> get_cpu_cores cpuinfo"
  by (simp add: get_cpu_cores_def Let_def split: option.splits)

text \<open>
  The result is at least 1 for every source, and 1 when the source cannot be opened
  or read. When every line of the source fits the 255 bytes that one \<open>fgets\<close> call
  reads, and fewer than \<open>2^31\<close> lines begin with \<open>processor\<close>, the result is the number
  of lines that begin with \<open>processor\<close>, or 1 when there is none.
\<close>

lemma get_cpu_cores_short_lines:
  "1 \<le> get_cpu_cores cpuinfo
   \<and> get_cpu_cores None = 1
   \<and> get_cpu_cores (Some Broken) = 1
   \<and> ((\<forall>l \<in> set (split_lines s). length l \<le> 255) \<and> processor_lines s < 2 ^ 31 \<longrightarrow>
        get_cpu_cores (Some (Data s))
          = (if processor_lines s = 0 then 1 else int (processor_lines s)))"
proof -
  have "get_cpu_cores (Some Broken) = 1"
    by (subst get_cpu_cores_def) (simp add: count_loop.simps)
  moreover have "get_cpu_cores (Some (Data s))
          = (if processor_lines s = 0 then 1 else int (processor_lines s))"
    if "\<forall>l \<in> set (split_lines s). length l \<le> 255" "processor_lines s < 2 ^ 31"
    using count_loop_lines [OF that(1), of 0] sint_of_nat_small [OF that(2)]
    by (simp add: get_cpu_cores_def)
  ultimately show ?thesis
    using get_cpu_cores_ge_1 [of cpuinfo] by (simp add: get_cpu_cores_def)
qed

lemma example_cpuinfo_lines:
  "split_lines example_cpuinfo
     = [''processor : 0'' @ [CHR 0x0A], ''model name : x'' @ [CHR 0x0A],
        ''processor : 1'' @ [CHR 0x0A]]"
  by (simp add: example_cpuinfo_def)

lemma example_cpuinfo_cores:
  "processor_lines example_cpuinfo = 2 \<and> get_cpu_cores (Some (Data example_cpuinfo)) = 2"
proof -
  have a: "\<forall>l \<in> set (split_lines example_cpuinfo). length l \<le> 255"
    by (simp add: example_cpuinfo_lines)
  have b: "processor_lines example_cpuinfo = 2"
    by (simp add: processor_lines_def example_cpuinfo_lines)
  show ?thesis
    using get_cpu_cores_short_lines [of None example_cpuinfo] a b by simp
qed

text \<open>
  Claim C8, at an input where the code departs from it. The claim has
  \<open>get_cpu_cores\<close> count the lines that begin with \<open>processor\<close> and return 1 when that
  count is zero. In \<open>example_long_line\<close> no line begins with \<open>processor\<close>; the loop reads
  its one line in three pieces of at most 255 bytes, compares each piece with the
  marker, finds it at the start of the second and of the third, and returns 2.
\<close>

theorem long_line_counted_twice:
  "processor_lines example_long_line = 0
   \<and> get_cpu_cores (Some (Data example_long_line)) = 2"
  by code_simp

section \<open>Properties of the main loop\<close>

text \<open>The state after one tick, without the events.\<close>

lemma tick_state:
  "fst (tick st env) =
     (case fst (get_cpu_times (proc_stat env) (idle st, total_t st)) of
        (idle', total', ok') \<Rightarrow>
          (case update_extremes (max_usage st, min_usage st)
                  (calculate_cpu_usage (prev_idle st) (prev_total st) idle' total' ok') of
             (mx, mn) \<Rightarrow>
               st\<lparr>prev_idle := (if ok' \<noteq> 0 then idle' else prev_idle st),
                   prev_total := (if ok' \<noteq> 0 then total' else prev_total st),
                   idle := idle', total_t := total', ok_times := ok',
                   cpu_usage := calculate_cpu_usage (prev_idle st) (prev_total st) idle' total' ok',
                   max_usage := mx, min_usage := mn,
                   cycle := cycle st + 1\<rparr>))"
  by (simp add: tick_def Let_def split: prod.splits)

lemma tick_events:
  "\<exists>pre. snd (tick st env) =
     pre @ alert_step (udp_sock st) (sendto_ok env) (cpu_usage (fst (tick st env)))
     \<and> (\<forall>u. Log (Alert_triggered u) \<notin> set pre \<and> Sendto u \<notin> set pre)"
  by (auto simp add: tick_def Let_def get_cpu_times_def split: prod.splits option.splits)

lemma tick_extremes:
  "min_usage (fst (tick st env)) \<le> cpu_usage (fst (tick st env))"
  "cpu_usage (fst (tick st env)) \<le> max_usage (fst (tick st env))"
  "max_usage st \<le> max_usage (fst (tick st env))"
  "min_usage (fst (tick st env)) \<le> min_usage st"
  by (simp_all add: tick_state update_extremes_def split: prod.splits)

lemma tick_usage:
  "0 \<le> cpu_usage (fst (tick st env))"
  "prev_total st = 0 \<Longrightarrow> cpu_usage (fst (tick st env)) = 0"
  by (simp_all add: tick_state update_extremes_def calculate_cpu_usage_nonneg
      calculate_cpu_usage_first split: prod.splits)

lemma tick_min_usage:
  "min_usage (fst (tick st env)) = min (min_usage st) (cpu_usage (fst (tick st env)))"
  by (simp add: tick_state update_extremes_def min_def split: prod.splits)

lemma session_between:
  "\<forall>s \<in> set (session st envs). min_usage s \<le> cpu_usage s \<and> cpu_usage s \<le> max_usage s"
proof (induction envs arbitrary: st)
  case Nil
  show ?case by simp
next
  case (Cons env envs)
  show ?case
    using Cons.IH tick_extremes(1,2) [of st env]
    by (simp add: Let_def)
qed

lemma session_widened:
  "sorted_wrt widened (st # session st envs)"
proof (induction envs arbitrary: st)
  case Nil
  show ?case by simp
next
  case (Cons env envs)
  let ?t = "fst (tick st env)"
  have step: "widened st ?t" "widened st (?t\<lparr>keep_running := 0\<rparr>)"
    using tick_extremes(3,4) [of st env] by (simp_all add: widened_def)
  have trans: "widened st b" if "widened st a" "widened a b" for a b
    using that by (auto simp add: widened_def)
  have rest: "\<forall>s \<in> set (session a envs). widened st s" if "widened st a" for a
    using Cons.IH [of a] that trans by auto
  show ?case
    using Cons.IH step rest by (simp add: Let_def)
qed

lemma session_min_zero:
  "min_usage st = 0 \<Longrightarrow> \<forall>s \<in> set (session st envs). min_usage s = 0"
proof (induction envs arbitrary: st)
  case Nil
  show ?case by simp
next
  case (Cons env envs)
  let ?t = "fst (tick st env)"
  have "min_usage ?t = 0"
    using tick_min_usage [of st env] tick_usage(1) [of st env] Cons.prems by simp
  then have m: "min_usage ?t = 0" "min_usage (?t\<lparr>keep_running := 0\<rparr>) = 0"
    by simp_all
  have r1: "\<forall>s \<in> set (session ?t envs). min_usage s = 0"
    using m(1) by (rule Cons.IH)
  have r2: "\<forall>s \<in> set (session (?t\<lparr>keep_running := 0\<rparr>) envs). min_usage s = 0"
    using m(2) by (rule Cons.IH)
  show ?case
    using r1 r2 m(1) by (simp add: Let_def)
qed

subsection \<open>The example session\<close>

lemmas eval_defs = get_cpu_times_def sscanf_cpu_def c_str_def scan_llu_def isspace_def
      isdigit_def strtoull_def digits_value_def field_def Let_def scan_fields.simps
      calculate_cpu_usage_def update_extremes_def main_init_def get_cpu_cores_def
      example_env_def example_stat_1_def example_stat_2_def example_stat_3_def
      u64_to_double_def double_usage_examples

lemma example_env_sel:
  "getch (example_env src) = - 1" "signalled (example_env src) = False"
  "proc_stat (example_env src) = src" "sendto_ok (example_env src) = True"
  by (simp_all add: example_env_def)

lemma main_init_keep_running: "keep_running (main_init cpuinfo sock) = 1"
  by (simp add: main_init_def)

lemma example_tick_1: "fst (tick (main_init None 3) (example_env (Some (Data example_stat_1)))) =
   \<lparr>prev_idle = 820, prev_total = 980, idle = 820, total_t = 980,
      cpu_usage = 0, max_usage = 0, min_usage = 0,
      ok_times = 1, cycle = 1,
      cpu_cores = 1, udp_sock = 3, keep_running = 1\<rparr>"
  by (simp add: tick_state eval_defs)

lemma example_tick_2: "fst (tick
   \<lparr>prev_idle = 820, prev_total = 980, idle = 820, total_t = 980,
      cpu_usage = 0, max_usage = 0, min_usage = 0,
      ok_times = 1, cycle = 1,
      cpu_cores = 1, udp_sock = 3, keep_running = 1\<rparr>
   (example_env (Some (Data example_stat_2)))) =
   \<lparr>prev_idle = 920, prev_total = 1180, idle = 920, total_t = 1180,
      cpu_usage = 50, max_usage = 50, min_usage = 0,
      ok_times = 1, cycle = 2,
      cpu_cores = 1, udp_sock = 3, keep_running = 1\<rparr>"
  by (simp add: tick_state eval_defs)

lemma example_tick_3: "fst (tick
   \<lparr>prev_idle = 920, prev_total = 1180, idle = 920, total_t = 1180,
      cpu_usage = 50, max_usage = 50, min_usage = 0,
      ok_times = 1, cycle = 2,
      cpu_cores = 1, udp_sock = 3, keep_running = 1\<rparr>
   (example_env None)) =
   \<lparr>prev_idle = 920, prev_total = 1180, idle = 920, total_t = 1180,
      cpu_usage = 0, max_usage = 50, min_usage = 0,
      ok_times = 0, cycle = 3,
      cpu_cores = 1, udp_sock = 3, keep_running = 1\<rparr>"
  by (simp add: tick_state eval_defs)

lemma example_tick_4: "fst (tick
   \<lparr>prev_idle = 920, prev_total = 1180, idle = 920, total_t = 1180,
      cpu_usage = 0, max_usage = 50, min_usage = 0,
      ok_times = 0, cycle = 3,
      cpu_cores = 1, udp_sock = 3, keep_running = 1\<rparr>
   (example_env (Some (Data example_stat_3)))) =
   \<lparr>prev_idle = 970, prev_total = 1430, idle = 970, total_t = 1430,
      cpu_usage = 80, max_usage = 80, min_usage = 0,
      ok_times = 1, cycle = 4,
      cpu_cores = 1, udp_sock = 3, keep_running = 1\<rparr>"
  by (simp add: tick_state eval_defs)

lemma example_session_states: "example_session =
  [\<lparr>prev_idle = 820, prev_total = 980, idle = 820, total_t = 980,
      cpu_usage = 0, max_usage = 0, min_usage = 0,
      ok_times = 1, cycle = 1,
      cpu_cores = 1, udp_sock = 3, keep_running = 1\<rparr>,
   \<lparr>prev_idle = 920, prev_total = 1180, idle = 920, total_t = 1180,
      cpu_usage = 50, max_usage = 50, min_usage = 0,
      ok_times = 1, cycle = 2,
      cpu_cores = 1, udp_sock = 3, keep_running = 1\<rparr>,
   \<lparr>prev_idle = 920, prev_total = 1180, idle = 920, total_t = 1180,
      cpu_usage = 0, max_usage = 50, min_usage = 0,
      ok_times = 0, cycle = 3,
      cpu_cores = 1, udp_sock = 3, keep_running = 1\<rparr>,
   \<lparr>prev_idle = 970, prev_total = 1430, idle = 970, total_t = 1430,
      cpu_usage = 80, max_usage = 80, min_usage = 0,
      ok_times = 1, cycle = 4,
      cpu_cores = 1, udp_sock = 3, keep_running = 1\<rparr>]"
  by (simp add: example_session_def Let_def example_tick_1 example_tick_2 example_tick_3 example_tick_4 example_env_sel main_init_keep_running)

lemma example_tick_unavailable: "fst (tick (main_init None 3) (example_env None)) =
   \<lparr>prev_idle = 0, prev_total = 0, idle = 0, total_t = 0,
      cpu_usage = 0, max_usage = 0, min_usage = 0,
      ok_times = 0, cycle = 1,
      cpu_cores = 1, udp_sock = 3, keep_running = 1\<rparr>"
  by (simp add: tick_state eval_defs)

subsection \<open>Alerting\<close>

text \<open>
  Claim C4. The threshold is 80. An iteration logs an alert exactly when the usage it
  computed is at least the threshold, and hands a datagram to the transport exactly
  when, in addition, the socket is open; nothing else of the state before the
  iteration enters the decision. Usage 79.99 gives no alert, usage 80 gives one.
\<close>

theorem alert_is_threshold_predicate:
  "ALERT_THRESHOLD = 80
   \<and> (Log (Alert_triggered u) \<in> set (alert_step sock accepted u)) = (u \<ge> ALERT_THRESHOLD)
   \<and> (Sendto u \<in> set (alert_step sock accepted u)) = (u \<ge> ALERT_THRESHOLD \<and> sock \<ge> 0)
   \<and> (Log (Alert_triggered v) \<in> set (snd (tick st env)))
        = (v = cpu_usage (fst (tick st env)) \<and> v \<ge> ALERT_THRESHOLD)
   \<and> (Sendto v \<in> set (snd (tick st env)))
        = (v = cpu_usage (fst (tick st env)) \<and> v \<ge> ALERT_THRESHOLD \<and> udp_sock st \<ge> 0)"
proof -
  obtain pre where pre: "snd (tick st env) =
       pre @ alert_step (udp_sock st) (sendto_ok env) (cpu_usage (fst (tick st env)))"
     "\<And>u. Log (Alert_triggered u) \<notin> set pre" "\<And>u. Sendto u \<notin> set pre"
    using tick_events [of st env] by blast
  have a: "(Log (Alert_triggered x) \<in> set (alert_step s a y)) = (x = y \<and> y \<ge> ALERT_THRESHOLD)"
    for x y s a
    by (auto simp add: alert_step_def send_udp_alert_def)
  have b: "(Sendto x \<in> set (alert_step s a y)) = (x = y \<and> y \<ge> ALERT_THRESHOLD \<and> s \<ge> 0)"
    for x y s a
    by (auto simp add: alert_step_def send_udp_alert_def SEND_ALERTS_def)
  show ?thesis
    using a b pre by (auto simp add: ALERT_THRESHOLD_def)
qed

theorem alert_threshold_witness:
  "alert_step 3 True 79.99 = [Status_ok]
   \<and> alert_step 3 True 80 = [Status_alert, Log (Alert_triggered 80), Sendto 80, Log Sent_udp_alert]
   \<and> Log (Alert_triggered 79.99) \<notin> set (alert_step 3 True 79.99)
   \<and> Log (Alert_triggered 80) \<in> set (alert_step 3 True 80)
   \<and> Sendto 80 \<in> set (alert_step 3 True 80)
   \<and> Sendto 80 \<notin> set (alert_step (- 1) True 80)"
proof -
  define st where "st = main_init None 3"
  define env where "env = example_env None"
  note a = alert_is_threshold_predicate [of "79.99" 3 True 0 st env]
  note b = alert_is_threshold_predicate [of 80 3 True 0 st env]
  note c = alert_is_threshold_predicate [of 80 "- 1" True 0 st env]
  have "Log (Alert_triggered 79.99) \<notin> set (alert_step 3 True 79.99)"
    using a by (simp add: ALERT_THRESHOLD_def)
  moreover have "Log (Alert_triggered 80) \<in> set (alert_step 3 True 80)"
    using b by (simp add: ALERT_THRESHOLD_def)
  moreover have "Sendto 80 \<in> set (alert_step 3 True 80)"
    using b by (simp add: ALERT_THRESHOLD_def)
  moreover have "Sendto 80 \<notin> set (alert_step (- 1) True 80)"
    using c by (simp add: ALERT_THRESHOLD_def)
  moreover have "alert_step 3 True 79.99 = [Status_ok]"
    by (simp add: alert_step_def ALERT_THRESHOLD_def)
  moreover have "alert_step 3 True 80
      = [Status_alert, Log (Alert_triggered 80), Sendto 80, Log Sent_udp_alert]"
    by (simp add: alert_step_def send_udp_alert_def SEND_ALERTS_def ALERT_THRESHOLD_def)
  ultimately show ?thesis by simp
qed

subsection \<open>Running extremes\<close>

text \<open>
  Claim C5. In a session started from the initial extremes \<open>{max: 0, min: 100}\<close>, after
  every iteration the minimum is at most the current usage and the current usage is
  at most the maximum; and along the states of the session, initial state included,
  the maximum never decreases and the minimum never increases.
\<close>

theorem extremes_bracket_usage:
  "(\<forall>s \<in> set (session (main_init cpuinfo sock) envs).
      min_usage s \<le> cpu_usage s \<and> cpu_usage s \<le> max_usage s)
   \<and> sorted_wrt widened (main_init cpuinfo sock # session (main_init cpuinfo sock) envs)
   \<and> max_usage (main_init cpuinfo sock) = 0
   \<and> min_usage (main_init cpuinfo sock) = 100"
  using session_between [of "main_init cpuinfo sock" envs]
      session_widened [of "main_init cpuinfo sock" envs]
  by (simp add: main_init_def)

theorem extremes_bracket_usage_witness:
  "example_session \<noteq> []
   \<and> min_usage (example_session ! 1) \<le> cpu_usage (example_session ! 1)
   \<and> cpu_usage (example_session ! 1) \<le> max_usage (example_session ! 1)
   \<and> map (\<lambda>s. (cpu_usage s, max_usage s, min_usage s)) example_session
        = [(0, 0, 0), (50, 50, 0), (0, 50, 0), (80, 80, 0)]"
proof -
  have all: "\<forall>s \<in> set example_session. min_usage s \<le> cpu_usage s \<and> cpu_usage s \<le> max_usage s"
    unfolding example_session_def
    using extremes_bracket_usage [of None 3] by blast
  have "example_session ! 1 \<in> set example_session"
    by (rule nth_mem) (simp add: example_session_states)
  with all have "min_usage (example_session ! 1) \<le> cpu_usage (example_session ! 1)
      \<and> cpu_usage (example_session ! 1) \<le> max_usage (example_session ! 1)"
    by blast
  moreover have "map (\<lambda>s. (cpu_usage s, max_usage s, min_usage s)) example_session
        = [(0, 0, 0), (50, 50, 0), (0, 50, 0), (80, 80, 0)]"
    by (simp add: example_session_states)
  ultimately show ?thesis by auto
qed

text \<open>
  Claim C6. The update of the extremes yields the larger of the old maximum and the
  usage, and the smaller of the old minimum and the usage; applying it twice with the
  same usage gives what applying it once gives.
\<close>

theorem update_extremes_idempotent:
  "update_extremes (update_extremes extremes usage) usage = update_extremes extremes usage
   \<and> update_extremes (mx, mn) usage = (max mx usage, min mn usage)"
  by (cases extremes) (auto simp add: update_extremes_def)

theorem update_extremes_idempotent_witness:
  "update_extremes (update_extremes (0, 100) 42) 42 = (42, 42)
   \<and> update_extremes (0, 100) 42 = (42, 42)"
  using update_extremes_idempotent [of "(0, 100)" 42 0 100]
  by (simp add: update_extremes_def)

text \<open>
  Claim C10. In every session the first iteration computes usage 0, and after the
  first iteration, and after every later one, the running minimum is 0.
\<close>

theorem minimum_is_zero_after_first_tick:
  "(\<forall>s \<in> set (session (main_init cpuinfo sock) envs). min_usage s = 0)
   \<and> (envs \<noteq> [] \<longrightarrow>
        session (main_init cpuinfo sock) envs \<noteq> []
        \<and> cpu_usage (hd (session (main_init cpuinfo sock) envs)) = 0)"
proof (cases envs)
  case Nil
  then show ?thesis by simp
next
  case (Cons env rest)
  let ?st = "main_init cpuinfo sock"
  let ?t = "fst (tick ?st env)"
  have p: "prev_total ?st = 0" "min_usage ?st = 100" "keep_running ?st = 1"
    by (simp_all add: main_init_def)
  have u: "cpu_usage ?t = 0" using tick_usage(2) [OF p(1)] .
  have m: "min_usage ?t = 0" using tick_min_usage [of ?st env] u p(2) by simp
  have m0: "min_usage (?t\<lparr>keep_running := 0\<rparr>) = 0" using m by simp
  have r1: "\<forall>s \<in> set (session ?t rest). min_usage s = 0"
    using m by (rule session_min_zero)
  have r2: "\<forall>s \<in> set (session (?t\<lparr>keep_running := 0\<rparr>) rest). min_usage s = 0"
    using m0 by (rule session_min_zero)
  show ?thesis
    using Cons u m p(3) r1 r2 by (simp add: Let_def)
qed

theorem minimum_is_zero_witness:
  "example_session \<noteq> []
   \<and> cpu_usage (hd example_session) = 0
   \<and> min_usage (example_session ! 1) = 0
   \<and> map cpu_usage example_session = [0, 50, 0, 80]
   \<and> map min_usage example_session = [0, 0, 0, 0]"
proof -
  note inst = minimum_is_zero_after_first_tick [of None 3
      "[example_env (Some (Data example_stat_1)),
        example_env (Some (Data example_stat_2)),
        example_env None,
        example_env (Some (Data example_stat_3))]", folded example_session_def]
  have all: "\<forall>s \<in> set example_session. min_usage s = 0" using inst by blast
  have "example_session ! 1 \<in> set example_session"
    by (rule nth_mem) (simp add: example_session_states)
  with all have "min_usage (example_session ! 1) = 0" by blast
  moreover have "example_session \<noteq> []" "cpu_usage (hd example_session) = 0"
    using inst by simp_all
  moreover have "map cpu_usage example_session = [0, 50, 0, 80]"
    "map min_usage example_session = [0, 0, 0, 0]"
    by (simp_all add: example_session_states)
  ultimately show ?thesis by simp
qed

subsection \<open>The previous sample\<close>

text \<open>
  Claim C9. An iteration stores the sample it read as the previous sample when the
  read was valid (\<open>ok_times\<close> is not 0), and leaves the previous sample as it was
  otherwise; the usage of the iteration is computed against the previous sample as it
  was before the iteration.
\<close>

theorem previous_sample_overwritten_only_if_ok:
  "(ok_times (fst (tick st env)) \<noteq> 0 \<longrightarrow>
      prev_idle (fst (tick st env)) = idle (fst (tick st env))
      \<and> prev_total (fst (tick st env)) = total_t (fst (tick st env)))
   \<and> (ok_times (fst (tick st env)) = 0 \<longrightarrow>
      prev_idle (fst (tick st env)) = prev_idle st
      \<and> prev_total (fst (tick st env)) = prev_total st)
   \<and> (idle (fst (tick st env)), total_t (fst (tick st env)), ok_times (fst (tick st env)))
        = fst (get_cpu_times (proc_stat env) (idle st, total_t st))
   \<and> cpu_usage (fst (tick st env))
        = calculate_cpu_usage (prev_idle st) (prev_total st)
            (idle (fst (tick st env))) (total_t (fst (tick st env)))
            (ok_times (fst (tick st env)))"
  by (simp add: tick_state Let_def split: prod.splits)

theorem previous_sample_witness:
  "ok_times (fst (tick (main_init None 3) (example_env (Some (Data example_stat_1))))) \<noteq> 0
   \<and> prev_idle (fst (tick (main_init None 3) (example_env (Some (Data example_stat_1))))) = 820
   \<and> prev_total (fst (tick (main_init None 3) (example_env (Some (Data example_stat_1))))) = 980
   \<and> ok_times (fst (tick (main_init None 3) (example_env None))) = 0
   \<and> prev_idle (fst (tick (main_init None 3) (example_env None))) = 0
   \<and> prev_total (fst (tick (main_init None 3) (example_env None))) = 0"
proof -
  have ok: "ok_times (fst (tick (main_init None 3) (example_env (Some (Data example_stat_1))))) \<noteq> 0"
    "idle (fst (tick (main_init None 3) (example_env (Some (Data example_stat_1))))) = 820"
    "total_t (fst (tick (main_init None 3) (example_env (Some (Data example_stat_1))))) = 980"
    by (simp_all add: example_tick_1)
  have bad: "ok_times (fst (tick (main_init None 3) (example_env None))) = 0"
    by (simp add: example_tick_unavailable)
  have init: "prev_idle (main_init None 3) = 0" "prev_total (main_init None 3) = 0"
    by (simp_all add: main_init_def)
  note a = previous_sample_overwritten_only_if_ok
        [of "main_init None 3" "example_env (Some (Data example_stat_1))",
         THEN conjunct1, rule_format, OF ok(1)]
  note b = previous_sample_overwritten_only_if_ok
        [of "main_init None 3" "example_env None",
         THEN conjunct2, THEN conjunct1, rule_format, OF bad]
  show ?thesis
    using a b ok bad init by simp
qed

subsection \<open>The usage bar\<close>

lemma fill_loop_eq:
  "fill_loop i bound c row = (\<lambda>col. if i < col \<and> col \<le> bound then Some c else row col)"
proof (induction i bound c row rule: fill_loop.induct)
  case (1 i bound c row)
  show ?case
  proof (cases "i < bound")
    case True
    then have "fill_loop i bound c row = fill_loop (i + 1) bound c (mvprintw (i + 1) c row)"
      by (subst fill_loop.simps) simp
    also have "\<dots> = (\<lambda>col. if i + 1 < col \<and> col \<le> bound then Some c
                          else mvprintw (i + 1) c row col)"
      using True by (rule "1.IH")
    also have "\<dots> = (\<lambda>col. if i < col \<and> col \<le> bound then Some c else row col)"
      using True by (auto simp add: mvprintw_def fun_eq_iff)
    finally show ?thesis .
  next
    case False
    then show ?thesis by (subst fill_loop.simps) (auto simp add: fun_eq_iff)
  qed
qed

lemma draw_bar_eq:
  assumes "0 \<le> n" "n \<le> w" "usage_fill_of w u = n"
  shows "draw_bar w u =
     (\<lambda>col. if col = w + 1 then Some CHR '']''
            else if n < col \<and> col \<le> w then Some CHR ''-''
            else if 0 < col \<and> col \<le> n then Some CHR ''#''
            else if col = 0 then Some CHR ''['' else None)"
  using assms by (auto simp add: draw_bar_def Let_def fill_loop_eq mvprintw_def fun_eq_iff)

lemma map_upto_const:
  "(\<And>k. a \<le> k \<Longrightarrow> k \<le> b \<Longrightarrow> f k = c) \<Longrightarrow> map f [a..b] = replicate (nat (b - a + 1)) c"
proof -
  assume h: "\<And>k. a \<le> k \<Longrightarrow> k \<le> b \<Longrightarrow> f k = c"
  have "map f [a..b] = map (\<lambda>k. c) [a..b]"
    by (rule map_cong) (auto simp add: h)
  also have "\<dots> = replicate (length [a..b]) c" by (simp add: map_replicate_const)
  finally show ?thesis by simp
qed

lemma upto_bar_split:
  assumes "0 \<le> n" "n \<le> w"
  shows "[0..w + 1] = [0] @ [1..n] @ [n + 1..w] @ [w + 1]"
proof -
  have "[0..w + 1] = [0..w] @ [w + 1]" using assms by (simp add: upto_rec2)
  moreover have "[0..w] = 0 # [1..w]" using assms by (simp add: upto_rec1)
  moreover have "[1..w] = [1..n] @ [n + 1..w]"
  proof (cases "n = w")
    case True
    then show ?thesis by simp
  next
    case False
    then show ?thesis using assms upto_split1 [of 1 "n + 1" w] by simp
  qed
  ultimately show ?thesis by simp
qed

lemma usage_fill_of_double:
  assumes "0 \<le> u" "u \<le> 100" "0 \<le> w" "w < 2 ^ 31"
  shows "usage_fill_of w u = \<lfloor>to_double (to_double (u / 100) * real_of_int w)\<rfloor>"
    and "0 \<le> usage_fill_of w u" and "usage_fill_of w u \<le> w"
    and "\<lfloor>u / 100 * real_of_int w\<rfloor> - 1 \<le> usage_fill_of w u"
    and "usage_fill_of w u \<le> \<lfloor>u / 100 * real_of_int w\<rfloor> + 1"
proof -
  define e :: real where "e = 1 / 2 ^ 53"
  define d where "d = to_double (u / 100)"
  define x where "x = u / 100 * real_of_int w"
  define y where "y = to_double (d * real_of_int w)"
  have e: "0 < e" "e * 2 ^ 33 < 1" by (simp_all add: e_def)
  have w: "0 \<le> real_of_int w" "real_of_int w < 2 ^ 31"
    using assms(3,4) by (simp_all add: of_int_less_numeral_power_cancel_iff)
  have wd: "to_double (real_of_int w) = real_of_int w"
    using assms(3,4) by (intro to_double_of_int) simp
  have u0: "0 \<le> u / 100" "u / 100 \<le> 1" using assms(1,2) by simp_all
  have x1: "0 \<le> x" unfolding x_def using u0(1) w(1) by (rule mult_nonneg_nonneg)
  have x2: "x \<le> real_of_int w"
    unfolding x_def using mult_right_mono [OF u0(2) w(1)] by simp
  note x = x1 x2
  have d: "(1 - e) * (u / 100) \<le> d" "d \<le> (1 + e) * (u / 100)" "0 \<le> d"
    using to_double_bounds [OF u0(1)] to_double_nonneg [OF u0(1)] by (simp_all add: d_def e_def)
  have dw0: "0 \<le> d * real_of_int w" using d(3) w(1) by simp
  have dw: "(1 - e) * x \<le> d * real_of_int w" "d * real_of_int w \<le> (1 + e) * x"
    using mult_right_mono [OF d(1) w(1)] mult_right_mono [OF d(2) w(1)]
    by (simp_all add: x_def mult.assoc)
  have y: "(1 - e) * (d * real_of_int w) \<le> y" "y \<le> (1 + e) * (d * real_of_int w)" "0 \<le> y"
    using to_double_bounds [OF dw0] to_double_nonneg [OF dw0] by (simp_all add: y_def e_def)
  have ex: "e * x \<le> e * 2 ^ 31" using x(2) w(2) e(1) by (intro mult_left_mono) auto
  have yup: "y \<le> x + 3 * (e * x)"
  proof -
    have "y \<le> (1 + e) * ((1 + e) * x)" using y(2) dw(2) e(1) by (meson add_nonneg_nonneg less_eq_real_def mult_left_mono order_trans zero_le_one)
    also have "\<dots> = x + 2 * (e * x) + e * (e * x)" by (simp add: algebra_simps)
    also have "\<dots> \<le> x + 2 * (e * x) + 1 * (e * x)"
      using e x(1) by (intro add_left_mono mult_right_mono) (auto simp add: e_def)
    finally show ?thesis by simp
  qed
  have ylo: "x - 3 * (e * x) \<le> y"
  proof -
    have "x - 3 * (e * x) \<le> x - 2 * (e * x) + e * (e * x)" using e(1) x(1) by simp
    also have "\<dots> = (1 - e) * ((1 - e) * x)" by (simp add: algebra_simps)
    also have "\<dots> \<le> (1 - e) * (d * real_of_int w)"
      using dw(1) e by (intro mult_left_mono) (auto simp add: e_def)
    also have "\<dots> \<le> y" by (rule y(1))
    finally show ?thesis .
  qed
  have small: "3 * (e * x) < 1" using ex e(2) by simp
  have fl: "usage_fill_of w u = \<lfloor>y\<rfloor>"
  proof -
    have "y < real_of_int w + 1" using yup small x(2) by simp
    then have "\<lfloor>y\<rfloor> \<le> w" by (simp add: floor_le_iff)
    moreover have "0 \<le> \<lfloor>y\<rfloor>" using y(3) by simp
    ultimately show ?thesis
      using y(3) by (simp add: usage_fill_of_def int_cast_def Let_def wd y_def d_def)
  qed
  show "usage_fill_of w u = \<lfloor>to_double (to_double (u / 100) * real_of_int w)\<rfloor>"
    using fl by (simp add: y_def d_def)
  show "0 \<le> usage_fill_of w u" using fl y(3) by simp
  have "y < real_of_int w + 1" using yup small x(2) by simp
  then show "usage_fill_of w u \<le> w" using fl by (simp add: floor_le_iff)
  have "x - 1 \<le> y" using ylo small by simp
  then have "\<lfloor>x - 1\<rfloor> \<le> \<lfloor>y\<rfloor>" by (rule floor_mono)
  then show "\<lfloor>u / 100 * real_of_int w\<rfloor> - 1 \<le> usage_fill_of w u"
    using fl by (simp add: x_def)
  have "y \<le> x + 1" using yup small by simp
  then have "\<lfloor>y\<rfloor> \<le> \<lfloor>x + 1\<rfloor>" by (rule floor_mono)
  then show "usage_fill_of w u \<le> \<lfloor>u / 100 * real_of_int w\<rfloor> + 1"
    using fl by (simp add: x_def)
qed

text \<open>
  Claim C7, as amended. For a usage in \<open>[0, 100]\<close> and a bar of width \<open>w\<close> (an \<open>int\<close>, not
  negative), the fill count is the product \<open>(u / 100.0) * w\<close> evaluated in double
  arithmetic and rounded down; it lies between 0 and \<open>w\<close> and differs by at most 1
  from the exact product rounded down. Row 9 shows an opening bracket, that many \<open>#\<close>,
  then \<open>-\<close> up to the width, and a closing bracket. Usage 0 gives fill 0 and usage 100
  gives fill \<open>w\<close>; at width 40, usage 50 gives fill 20.
\<close>

theorem usage_bar_rendering:
  assumes "0 \<le> u" and "u \<le> 100" and "0 \<le> w" and "w < 2 ^ 31"
  shows "usage_fill_of w u = \<lfloor>to_double (to_double (u / 100) * real_of_int w)\<rfloor>
    \<and> 0 \<le> usage_fill_of w u \<and> usage_fill_of w u \<le> w
    \<and> \<lfloor>u / 100 * real_of_int w\<rfloor> - 1 \<le> usage_fill_of w u
    \<and> usage_fill_of w u \<le> \<lfloor>u / 100 * real_of_int w\<rfloor> + 1
    \<and> row_text w (draw_bar w u)
        = ''['' @ replicate (nat (usage_fill_of w u)) CHR ''#''
            @ replicate (nat (w - usage_fill_of w u)) CHR ''-'' @ '']''
    \<and> (u = 0 \<longrightarrow> usage_fill_of w u = 0)
    \<and> (u = 100 \<longrightarrow> usage_fill_of w u = w)"
proof -
  define n where "n = usage_fill_of w u"
  note fill = usage_fill_of_double [OF assms]
  have n: "0 \<le> n" "n \<le> w" using fill(2,3) by (simp_all add: n_def)
  let ?f = "\<lambda>col. case draw_bar w u col of None \<Rightarrow> CHR 0x20 | Some c \<Rightarrow> c"
  note db = draw_bar_eq [OF n(1,2) n_def [symmetric]]
  have a: "map ?f [1..n] = replicate (nat (n - 1 + 1)) CHR ''#''"
  proof (rule map_upto_const)
    fix k :: int
    assume "1 \<le> k" "k \<le> n"
    then show "?f k = CHR ''#''" using n(1,2) by (simp add: db)
  qed
  have b: "map ?f [n + 1..w] = replicate (nat (w - (n + 1) + 1)) CHR ''-''"
  proof (rule map_upto_const)
    fix k :: int
    assume "n + 1 \<le> k" "k \<le> w"
    then show "?f k = CHR ''-''" using n(1,2) by (simp add: db)
  qed
  have c: "?f 0 = CHR ''[''" "?f (w + 1) = CHR '']''"
    using n(1,2) by (simp_all add: db)
  have row: "row_text w (draw_bar w u) = ''['' @ replicate (nat n) CHR ''#''
            @ replicate (nat (w - n)) CHR ''-'' @ '']''"
    unfolding row_text_def upto_bar_split [OF n(1,2)] map_append a b
    using c by simp
  have zero: "usage_fill_of w u = 0" if "u = 0"
    using fill(1) that by (simp add: to_double_def)
  have one: "to_double 1 = 1" using to_double_of_int [of 1] by simp
  have wd: "to_double (real_of_int w) = real_of_int w"
    using assms(3,4) by (intro to_double_of_int) simp
  have full: "usage_fill_of w u = w" if "u = 100"
    using fill(1) that by (simp add: one wd)
  show ?thesis
    using fill row zero full by (simp add: n_def)
qed

theorem usage_bar_witness:
  "usage_fill_of 40 0 = 0 \<and> usage_fill_of 40 100 = 40 \<and> usage_fill_of 40 50 = 20
   \<and> row_text 40 (draw_bar 40 50) = ''[####################--------------------]''"
proof -
  have v: "\<lfloor>to_double (to_double (50 / 100) * real_of_int 40)\<rfloor> = 20"
    by (simp add: dbl_eval)
  show ?thesis
    using usage_bar_rendering [of 0 40] usage_bar_rendering [of 100 40]
      usage_bar_rendering [of 50 40] v
    by (simp add: eval_nat_numeral)
qed

text \<open>
  The fill count is not always the exact product rounded down. For an idle difference
  of 11 in a total difference of 20 the calculator returns the double next below 45;
  the exact product with \<open>40 / 100\<close> is below 18 and rounds down to 17, while the double
  product is 18 and the code draws 18 \<open>#\<close>.
\<close>

theorem usage_bar_rounding_counterexample:
  "calculate_cpu_usage 0 20 11 40 1 = 6333186975989759 / 140737488355328
   \<and> usage_fill_of 40 (6333186975989759 / 140737488355328) = 18
   \<and> \<lfloor>(6333186975989759 / 140737488355328) / 100 * real_of_int 40\<rfloor> = 17"
proof -
  have "to_double (to_double (6333186975989759 / 140737488355328 / 100) * to_double 40) = 18"
    by (simp add: dbl_eval)
  then show ?thesis
    by (simp add: calculate_cpu_usage_def usage_fill_of_def int_cast_def Let_def
        u64_to_double_def double_usage_examples)
qed

end
